theory Spec2Isabelle
  imports Complex_Main
begin

section \<open>Python values that can occur as nodes of a tree\<close>

text \<open>
  The cursor of \<^verbatim>\<open>lib/json_cursor.py\<close> walks over Python values. The code tells
  them apart with \<^verbatim>\<open>isinstance\<close> only, against the classes \<^verbatim>\<open>dict\<close>, \<^verbatim>\<open>list\<close>,
  \<^verbatim>\<open>Mapping\<close>, \<^verbatim>\<open>Sequence\<close>, \<^verbatim>\<open>str\<close>, \<^verbatim>\<open>bytes\<close> and \<^verbatim>\<open>bytearray\<close>, so the value type
  sorts the values admitted by
  \<^verbatim>\<open>JsonNodeType = Union[str, int, float, bool, None, Mapping, Sequence]\<close> by the answers
  these tests give:

  \<^item> \<open>PDict\<close>: a \<^verbatim>\<open>dict\<close> (or an instance of a subclass); also a \<^verbatim>\<open>Mapping\<close>.
  \<^item> \<open>PMapping\<close>: a \<^verbatim>\<open>Mapping\<close> that is not a \<^verbatim>\<open>dict\<close> (a \<^verbatim>\<open>MappingProxyType\<close>, say).
  \<^item> \<open>PList\<close>: a \<^verbatim>\<open>list\<close>; also a \<^verbatim>\<open>Sequence\<close>.
  \<^item> \<open>PTuple\<close>: a \<^verbatim>\<open>Sequence\<close> of nodes that is no \<^verbatim>\<open>list\<close> (a \<^verbatim>\<open>tuple\<close>, say).
  \<^item> \<open>PStr\<close>, \<open>PBytes\<close>, \<open>PByteArray\<close>: the three classes the code names, all of them
    \<^verbatim>\<open>Sequence\<close>s.
  \<^item> \<open>PMemoryview\<close>: a \<^verbatim>\<open>memoryview\<close> over bytes: a bytes-like object and a registered
    \<^verbatim>\<open>Sequence\<close>, but no \<^verbatim>\<open>str\<close>, \<^verbatim>\<open>bytes\<close> or \<^verbatim>\<open>bytearray\<close>; iterating it gives its bytes as
    integers.
  \<^item> \<open>PMappingSequence\<close>: an object that is both a \<^verbatim>\<open>Mapping\<close> and a \<^verbatim>\<open>Sequence\<close> (a subclass of
    \<^verbatim>\<open>Mapping\<close> registered with \<^verbatim>\<open>Sequence.register\<close>), and no \<^verbatim>\<open>dict\<close> or \<^verbatim>\<open>list\<close>.
  \<^item> \<open>PNone\<close>, \<open>PBool\<close>, \<open>PInt\<close>, \<open>PFloat\<close>: the remaining scalars.

  A mapping is the list of its entries in the order \<^verbatim>\<open>items()\<close> enumerates them; its keys
  are strings (\<^verbatim>\<open>name: str\<close> in \<^verbatim>\<open>__getattr__\<close>) and pairwise distinct (\<open>wf_node\<close> below).
  Floats are kept as reals: the cursor never computes with them. A sequence whose
  elements contain the sequence again (\<^verbatim>\<open>collections.UserString\<close>, whose items are
  \<^verbatim>\<open>UserString\<close>s) is no tree and no value of this type.
\<close>

datatype pyval =
    PNone
  | PBool bool
  | PInt int
  | PFloat real
  | PStr string
  | PBytes string
  | PByteArray string
  | PDict "(string \<times> pyval) list"
  | PMapping "(string \<times> pyval) list"
  | PList "pyval list"
  | PTuple "pyval list"
  | PMemoryview string
  | PMappingSequence "(string \<times> pyval) list"

fun isinstance_dict :: "pyval \<Rightarrow> bool" where
  "isinstance_dict (PDict kvs) = True"
| "isinstance_dict v = False"

fun isinstance_list :: "pyval \<Rightarrow> bool" where
  "isinstance_list (PList xs) = True"
| "isinstance_list v = False"

fun isinstance_Mapping :: "pyval \<Rightarrow> bool" where
  "isinstance_Mapping (PDict kvs) = True"
| "isinstance_Mapping (PMapping kvs) = True"
| "isinstance_Mapping (PMappingSequence kvs) = True"
| "isinstance_Mapping v = False"

fun isinstance_Sequence :: "pyval \<Rightarrow> bool" where
  "isinstance_Sequence (PList xs) = True"
| "isinstance_Sequence (PTuple xs) = True"
| "isinstance_Sequence (PStr s) = True"
| "isinstance_Sequence (PBytes s) = True"
| "isinstance_Sequence (PByteArray s) = True"
| "isinstance_Sequence (PMemoryview s) = True"
| "isinstance_Sequence (PMappingSequence kvs) = True"
| "isinstance_Sequence v = False"

text \<open>\<^verbatim>\<open>isinstance(n, (str, bytes, bytearray))\<close>\<close>

fun isinstance_str_bytes_bytearray :: "pyval \<Rightarrow> bool" where
  "isinstance_str_bytes_bytearray (PStr s) = True"
| "isinstance_str_bytes_bytearray (PBytes s) = True"
| "isinstance_str_bytes_bytearray (PByteArray s) = True"
| "isinstance_str_bytes_bytearray v = False"

text \<open>\<^verbatim>\<open>node.items()\<close> of a mapping and the elements of a sequence, in iteration order.\<close>

fun items :: "pyval \<Rightarrow> (string \<times> pyval) list" where
  "items (PDict kvs) = kvs"
| "items (PMapping kvs) = kvs"
| "items (PMappingSequence kvs) = kvs"
| "items v = []"

fun elements :: "pyval \<Rightarrow> pyval list" where
  "elements (PList xs) = xs"
| "elements (PTuple xs) = xs"
| "elements (PMemoryview s) = map (\<lambda>b. PInt (of_char b)) s"
| "elements v = []"

text \<open>Python's truth value of an object, as \<^verbatim>\<open>if x:\<close> tests it.\<close>

fun truthy :: "pyval \<Rightarrow> bool" where
  "truthy PNone = False"
| "truthy (PBool b) = b"
| "truthy (PInt i) = (i \<noteq> 0)"
| "truthy (PFloat r) = (r \<noteq> 0)"
| "truthy (PStr s) = (s \<noteq> [])"
| "truthy (PBytes s) = (s \<noteq> [])"
| "truthy (PByteArray s) = (s \<noteq> [])"
| "truthy (PDict kvs) = (kvs \<noteq> [])"
| "truthy (PMapping kvs) = (kvs \<noteq> [])"
| "truthy (PList xs) = (xs \<noteq> [])"
| "truthy (PTuple xs) = (xs \<noteq> [])"
| "truthy (PMemoryview s) = (s \<noteq> [])"
| "truthy (PMappingSequence kvs) = (kvs \<noteq> [])"

text \<open>The keys of every mapping in a tree are pairwise distinct, as in any Python mapping.\<close>

fun wf_node :: "pyval \<Rightarrow> bool"
  and wf_items :: "(string \<times> pyval) list \<Rightarrow> bool"
  and wf_elements :: "pyval list \<Rightarrow> bool"
where
  "wf_node (PDict kvs) = (distinct (map fst kvs) \<and> wf_items kvs)"
| "wf_node (PMapping kvs) = (distinct (map fst kvs) \<and> wf_items kvs)"
| "wf_node (PMappingSequence kvs) = (distinct (map fst kvs) \<and> wf_items kvs)"
| "wf_node (PList xs) = wf_elements xs"
| "wf_node (PTuple xs) = wf_elements xs"
| "wf_node v = True"
| "wf_items [] = True"
| "wf_items (kv # kvs) = (wf_node (snd kv) \<and> wf_items kvs)"
| "wf_elements [] = True"
| "wf_elements (x # xs) = (wf_node x \<and> wf_elements xs)"

text \<open>
  A tree all of whose mappings are \<^verbatim>\<open>dict\<close>s and all of whose sequences are \<^verbatim>\<open>list\<close>s:
  what \<^verbatim>\<open>json.load\<close> produces.
\<close>

fun plain_json :: "pyval \<Rightarrow> bool"
  and plain_items :: "(string \<times> pyval) list \<Rightarrow> bool"
  and plain_elements :: "pyval list \<Rightarrow> bool"
where
  "plain_json (PDict kvs) = plain_items kvs"
| "plain_json (PMapping kvs) = False"
| "plain_json (PList xs) = plain_elements xs"
| "plain_json (PTuple xs) = False"
| "plain_json (PMemoryview s) = False"
| "plain_json (PMappingSequence kvs) = False"
| "plain_json v = True"
| "plain_items [] = True"
| "plain_items (kv # kvs) = (plain_json (snd kv) \<and> plain_items kvs)"
| "plain_elements [] = True"
| "plain_elements (x # xs) = (plain_json x \<and> plain_elements xs)"

text \<open>
  The number of nodes of a subtree, the children of a node being what \<^verbatim>\<open>search\<close> and
  \<^verbatim>\<open>visit\<close> iterate over. It also measures the recursion of the traversals.
\<close>

fun node_count :: "pyval \<Rightarrow> nat"
  and node_count_items :: "(string \<times> pyval) list \<Rightarrow> nat"
  and node_count_elements :: "pyval list \<Rightarrow> nat"
where
  "node_count (PDict kvs) = 1 + node_count_items kvs"
| "node_count (PMapping kvs) = 1 + node_count_items kvs"
| "node_count (PMappingSequence kvs) = 1 + node_count_items kvs"
| "node_count (PList xs) = 1 + node_count_elements xs"
| "node_count (PTuple xs) = 1 + node_count_elements xs"
| "node_count (PMemoryview s) = 1 + length s"
| "node_count v = 1"
| "node_count_items [] = 0"
| "node_count_items (kv # kvs) = node_count (snd kv) + node_count_items kvs"
| "node_count_elements [] = 0"
| "node_count_elements (x # xs) = node_count x + node_count_elements xs"

lemma node_count_positive: "0 < node_count v"
  by (cases v) simp_all

lemma node_count_memoryview: "node_count_elements (map (\<lambda>b. PInt (of_char b)) s) = length s"
  by (induction s) simp_all

lemma node_count_items_less: "isinstance_Mapping v \<Longrightarrow> node_count_items (items v) < node_count v"
  by (cases v) simp_all

lemma node_count_elements_less:
  "isinstance_Sequence v \<Longrightarrow> \<not> isinstance_Mapping v \<Longrightarrow> node_count_elements (elements v) < node_count v"
  by (cases v) (simp_all add: node_count_memoryview)

section \<open>The cursor\<close>

text \<open>A path segment is a mapping key or a sequence index (\<^verbatim>\<open>List[Union[str, int]]\<close>).\<close>

datatype seg = Key string | Idx int

text \<open>
  \<^verbatim>\<open>class JsonCursor\<close> with its two fields. No method of the class assigns to a field or
  changes a list in place (\<^verbatim>\<open>self.path + [name]\<close> builds a new list), so a cursor is a
  value here; the aliasing of the path list is modelled apart, in the section on \<open>get_path\<close>.
\<close>

datatype cursor = JsonCursor (node: pyval) (path: "seg list")

text \<open>\<^verbatim>\<open>__init__(self, node, path=None)\<close>: \<^verbatim>\<open>self.path = path or []\<close>.\<close>

definition JsonCursor_init :: "pyval \<Rightarrow> seg list option \<Rightarrow> cursor" where
  "JsonCursor_init n p = JsonCursor n (case p of None \<Rightarrow> [] | Some q \<Rightarrow> (if q = [] then [] else q))"

text \<open>The exceptions the class raises, each with its message.\<close>

datatype error = AttributeError string | IndexError string | TypeError string

text \<open>The failure kinds of the specification, as the exceptions the code raises for them.\<close>

definition KeyNotFound :: "string \<Rightarrow> error" where
  "KeyNotFound name = AttributeError (''Key '' @ [CHR 0x27] @ name @ [CHR 0x27] @ '' not found in current node'')"

definition TypeMismatch :: error where
  "TypeMismatch = AttributeError ''Current node is not a JSON object (dict)''"

definition IndexOutOfRange :: error where
  "IndexOutOfRange = IndexError ''List index out of range''"

definition NotASequence :: error where
  "NotASequence = TypeError ''Current node is not a JSON array (list)''"

definition NotATerminal :: error where
  "NotATerminal = TypeError ''Current node is not a terminal JSON value''"

text \<open>
  \<^verbatim>\<open>__getattr__(self, name)\<close>, the specification's \<open>childByKey\<close>. This is the method, as
  a call \<^verbatim>\<open>cursor.__getattr__(name)\<close> runs it. Python runs it for an attribute access
  \<^verbatim>\<open>cursor.name\<close> only when \<^verbatim>\<open>name\<close> is no attribute of the object or its class, so
  \<^verbatim>\<open>cursor.path\<close> and \<^verbatim>\<open>cursor.node\<close> are the fields and \<^verbatim>\<open>cursor.value\<close> is the method, whatever
  the keys of the node.
\<close>

definition JsonCursor_getattr :: "cursor \<Rightarrow> string \<Rightarrow> error + cursor" where
  "JsonCursor_getattr self name =
     (if isinstance_dict (node self) then
        (case map_of (items (node self)) name of
           Some child \<Rightarrow> Inr (JsonCursor child (path self @ [Key name]))
         | None \<Rightarrow> Inl (KeyNotFound name))
      else Inl TypeMismatch)"

text \<open>\<^verbatim>\<open>__getitem__(self, index)\<close>, the specification's \<open>childByIndex\<close>.\<close>

definition JsonCursor_getitem :: "cursor \<Rightarrow> int \<Rightarrow> error + cursor" where
  "JsonCursor_getitem self index =
     (if isinstance_list (node self) then
        (if 0 \<le> index \<and> index < int (length (elements (node self)))
         then Inr (JsonCursor (elements (node self) ! nat index) (path self @ [Idx index]))
         else Inl IndexOutOfRange)
      else Inl NotASequence)"

text \<open>\<^verbatim>\<open>value(self)\<close>\<close>

definition JsonCursor_value :: "cursor \<Rightarrow> error + pyval" where
  "JsonCursor_value self =
     (if isinstance_dict (node self) \<or> isinstance_list (node self)
      then Inl NotATerminal
      else Inr (node self))"

text \<open>\<^verbatim>\<open>on_dict\<close>, \<^verbatim>\<open>on_list\<close>, \<^verbatim>\<open>on_data\<close>: the specification's \<open>isMapping\<close>, \<open>isSequence\<close>, \<open>isTerminal\<close>.\<close>

definition on_dict :: "cursor \<Rightarrow> bool" where
  "on_dict self = isinstance_Mapping (node self)"

definition on_list :: "cursor \<Rightarrow> bool" where
  "on_list self =
     (let n = node self in isinstance_Sequence n \<and> \<not> isinstance_str_bytes_bytearray n)"

definition on_data :: "cursor \<Rightarrow> bool" where
  "on_data self = (\<not> (on_dict self \<or> on_list self))"

section \<open>Search\<close>

text \<open>
  \<^verbatim>\<open>search(self, predicate)\<close> with its inner \<^verbatim>\<open>_recursive_search\<close>. The predicate is a
  function of the cursor (a predicate that keeps state between its calls is not
  modelled): it returns an object, of which the code takes the truth value, or it
  raises, and then the exception leaves \<^verbatim>\<open>search\<close>. The two \<^verbatim>\<open>for\<close> loops are the functions
  \<open>search_items\<close> (over \<^verbatim>\<open>cursor.node.items()\<close>) and \<open>search_enumerate\<close> (over
  \<^verbatim>\<open>enumerate(cursor.node)\<close>, the counter passed along). A cursor object is always true
  in Python, so \<^verbatim>\<open>if result:\<close> asks whether the recursive call found something.
\<close>

function recursive_search :: "(cursor \<Rightarrow> 'e + pyval) \<Rightarrow> cursor \<Rightarrow> 'e + cursor option"
  and search_items :: "(cursor \<Rightarrow> 'e + pyval) \<Rightarrow> seg list \<Rightarrow> (string \<times> pyval) list \<Rightarrow> 'e + cursor option"
  and search_enumerate :: "(cursor \<Rightarrow> 'e + pyval) \<Rightarrow> seg list \<Rightarrow> int \<Rightarrow> pyval list \<Rightarrow> 'e + cursor option"
where
  "recursive_search predicate cursor =
     (case predicate cursor of
        Inl e \<Rightarrow> Inl e
      | Inr matched \<Rightarrow>
          if truthy matched then Inr (Some cursor)
          else if isinstance_Mapping (node cursor) then
            search_items predicate (path cursor) (items (node cursor))
          else if isinstance_Sequence (node cursor)
                  \<and> \<not> isinstance_str_bytes_bytearray (node cursor) then
            search_enumerate predicate (path cursor) 0 (elements (node cursor))
          else Inr None)"
| "search_items predicate p [] = Inr None"
| "search_items predicate p ((key, val) # rest) =
     (case recursive_search predicate (JsonCursor val (p @ [Key key])) of
        Inl e \<Rightarrow> Inl e
      | Inr (Some result) \<Rightarrow> Inr (Some result)
      | Inr None \<Rightarrow> search_items predicate p rest)"
| "search_enumerate predicate p index [] = Inr None"
| "search_enumerate predicate p index (item # rest) =
     (case recursive_search predicate (JsonCursor item (p @ [Idx index])) of
        Inl e \<Rightarrow> Inl e
      | Inr (Some result) \<Rightarrow> Inr (Some result)
      | Inr None \<Rightarrow> search_enumerate predicate p (index + 1) rest)"
  by pat_completeness auto
termination
proof (relation "measure (\<lambda>x. case x of
          Inl (f, c) \<Rightarrow> 2 * node_count (node c)
        | Inr (Inl (f, p, kvs)) \<Rightarrow> 2 * node_count_items kvs + 1
        | Inr (Inr (f, p, i, xs)) \<Rightarrow> 2 * node_count_elements xs + 1)", goal_cases)
  case (2 predicate cursor matched)
  then show ?case using node_count_items_less [of "node cursor"] by simp
next
  case (3 predicate cursor matched)
  then show ?case using node_count_elements_less [of "node cursor"] by simp
next
  case (5 predicate p key val rest)
  then show ?case using node_count_positive [of val] by simp
next
  case (7 predicate p index item rest)
  then show ?case using node_count_positive [of item] by simp
qed simp_all

definition JsonCursor_search :: "cursor \<Rightarrow> (cursor \<Rightarrow> 'e + pyval) \<Rightarrow> 'e + cursor option" where
  "JsonCursor_search self predicate = recursive_search predicate self"

section \<open>Visit\<close>

text \<open>
  \<^verbatim>\<open>visit(self, handler)\<close> with its inner \<^verbatim>\<open>_recursive_visit\<close>. The handler works by side
  effect, so it is a function on a state \<open>'s\<close> of the caller's choosing: called with a
  cursor and the flag \<open>entering\<close> it returns an object or raises, and leaves a new state.
  \<^verbatim>\<open>visit\<close> returns \<^verbatim>\<open>None\<close> (the value \<open>Inr ()\<close>) unless the handler raises.
  \<^verbatim>\<open>continue_descent is False\<close> holds for the object \<^verbatim>\<open>False\<close> alone.
\<close>

type_synonym ('e, 's) handler = "cursor \<Rightarrow> bool \<Rightarrow> 's \<Rightarrow> ('e + pyval) \<times> 's"

function recursive_visit :: "('e, 's) handler \<Rightarrow> cursor \<Rightarrow> 's \<Rightarrow> ('e + unit) \<times> 's"
  and visit_items :: "('e, 's) handler \<Rightarrow> seg list \<Rightarrow> (string \<times> pyval) list \<Rightarrow> 's \<Rightarrow> ('e + unit) \<times> 's"
  and visit_enumerate :: "('e, 's) handler \<Rightarrow> seg list \<Rightarrow> int \<Rightarrow> pyval list \<Rightarrow> 's \<Rightarrow> ('e + unit) \<times> 's"
where
  "recursive_visit handler cursor s =
     (case handler cursor True s of
        (Inl e, s1) \<Rightarrow> (Inl e, s1)
      | (Inr continue_descent, s1) \<Rightarrow>
          if continue_descent = PBool False then (Inr (), s1)
          else
            (case (if isinstance_Mapping (node cursor) then
                     (True, visit_items handler (path cursor) (items (node cursor)) s1)
                   else if isinstance_Sequence (node cursor)
                           \<and> \<not> isinstance_str_bytes_bytearray (node cursor) then
                     (True, visit_enumerate handler (path cursor) 0 (elements (node cursor)) s1)
                   else (False, (Inr (), s1))) of
               (descended, (Inl e, s2)) \<Rightarrow> (Inl e, s2)
             | (descended, (Inr u, s2)) \<Rightarrow>
                 if descended then
                   (case handler cursor False s2 of
                      (Inl e, s3) \<Rightarrow> (Inl e, s3)
                    | (Inr ignored, s3) \<Rightarrow> (Inr (), s3))
                 else (Inr (), s2)))"
| "visit_items handler p [] s = (Inr (), s)"
| "visit_items handler p ((key, val) # rest) s =
     (case recursive_visit handler (JsonCursor val (p @ [Key key])) s of
        (Inl e, s1) \<Rightarrow> (Inl e, s1)
      | (Inr u, s1) \<Rightarrow> visit_items handler p rest s1)"
| "visit_enumerate handler p index [] s = (Inr (), s)"
| "visit_enumerate handler p index (item # rest) s =
     (case recursive_visit handler (JsonCursor item (p @ [Idx index])) s of
        (Inl e, s1) \<Rightarrow> (Inl e, s1)
      | (Inr u, s1) \<Rightarrow> visit_enumerate handler p (index + 1) rest s1)"
  by pat_completeness auto
termination
proof (relation "measure (\<lambda>x. case x of
          Inl (f, c, s) \<Rightarrow> 2 * node_count (node c)
        | Inr (Inl (f, p, kvs, s)) \<Rightarrow> 2 * node_count_items kvs + 1
        | Inr (Inr (f, p, i, xs, s)) \<Rightarrow> 2 * node_count_elements xs + 1)", goal_cases)
  case (2 handler cursor s x1 s1 continue_descent)
  then show ?case using node_count_items_less [of "node cursor"] by simp
next
  case (3 handler cursor s x1 s1 continue_descent)
  then show ?case using node_count_elements_less [of "node cursor"] by simp
next
  case (5 handler p key val rest s)
  then show ?case using node_count_positive [of val] by simp
next
  case (7 handler p index item rest s)
  then show ?case using node_count_positive [of item] by simp
qed simp_all

definition JsonCursor_visit :: "cursor \<Rightarrow> ('e, 's) handler \<Rightarrow> 's \<Rightarrow> ('e + unit) \<times> 's" where
  "JsonCursor_visit self handler s = recursive_visit handler self s"

text \<open>
  To speak about the calls a traversal makes, the handler is wrapped so that it also
  appends each call it receives, with the answer it gives, to a log kept beside its own
  state. \<open>run_log h c s\<close> is the log of \<^verbatim>\<open>c.visit(h)\<close> started in state \<open>s\<close>, and
  \<open>calls h c s\<close> are the calls in it. A logged call \<open>raised\<close> when its answer is an
  exception, and a cursor was \<open>answered_False\<close> when its entering call returned the
  object \<^verbatim>\<open>False\<close>.
\<close>

type_synonym 'e entry = "cursor \<times> bool \<times> ('e + pyval)"

definition traced :: "('e, 's) handler \<Rightarrow> ('e, 'e entry list \<times> 's) handler" where
  "traced h c entering = (\<lambda>(tr, s). case h c entering s of (r, s') \<Rightarrow> (r, (tr @ [(c, entering, r)], s')))"

definition run_log :: "('e, 's) handler \<Rightarrow> cursor \<Rightarrow> 's \<Rightarrow> 'e entry list" where
  "run_log h c s = fst (snd (JsonCursor_visit c (traced h) ([], s)))"

definition calls_of :: "'e entry list \<Rightarrow> (cursor \<times> bool) list" where
  "calls_of entries = map (\<lambda>en. (fst en, fst (snd en))) entries"

definition calls :: "('e, 's) handler \<Rightarrow> cursor \<Rightarrow> 's \<Rightarrow> (cursor \<times> bool) list" where
  "calls h c s = calls_of (run_log h c s)"

definition raised :: "'e entry \<Rightarrow> bool" where
  "raised en = (case snd (snd en) of Inl e \<Rightarrow> True | Inr v \<Rightarrow> False)"

definition answered_False :: "'e entry list \<Rightarrow> cursor \<Rightarrow> bool" where
  "answered_False entries x = ((x, True, Inr (PBool False)) \<in> set entries)"

section \<open>The traversal order of the specification\<close>

text \<open>
  Depth-first pre-order of the cursors of a subtree, as the specification words it: the
  parent before its children, the entries of a Mapping in enumeration order, the elements
  of a Sequence in index order, each child with its parent's path extended by one segment.
\<close>

function preorder :: "cursor \<Rightarrow> cursor list"
  and preorder_items :: "seg list \<Rightarrow> (string \<times> pyval) list \<Rightarrow> cursor list"
  and preorder_enumerate :: "seg list \<Rightarrow> int \<Rightarrow> pyval list \<Rightarrow> cursor list"
where
  "preorder c =
     c # (if on_dict c then preorder_items (path c) (items (node c))
          else if on_list c then preorder_enumerate (path c) 0 (elements (node c))
          else [])"
| "preorder_items p [] = []"
| "preorder_items p (kv # rest) =
     preorder (JsonCursor (snd kv) (p @ [Key (fst kv)])) @ preorder_items p rest"
| "preorder_enumerate p i [] = []"
| "preorder_enumerate p i (x # rest) =
     preorder (JsonCursor x (p @ [Idx i])) @ preorder_enumerate p (i + 1) rest"
  by pat_completeness auto
termination
proof (relation "measure (\<lambda>x. case x of
          Inl c \<Rightarrow> 2 * node_count (node c)
        | Inr (Inl (p, kvs)) \<Rightarrow> 2 * node_count_items kvs + 1
        | Inr (Inr (p, i, xs)) \<Rightarrow> 2 * node_count_elements xs + 1)", goal_cases)
  case (2 c)
  then show ?case using node_count_items_less [of "node c"] by (simp add: on_dict_def)
next
  case (3 c)
  then show ?case using node_count_elements_less [of "node c"]
    by (simp add: on_dict_def on_list_def Let_def)
next
  case (4 p kv rest)
  then show ?case by simp
next
  case (5 p kv rest)
  then show ?case using node_count_positive [of "snd kv"] by simp
next
  case (7 p i x rest)
  then show ?case using node_count_positive [of x] by simp
qed simp_all


text \<open>A node satisfies a predicate when the predicate returns a true object for its cursor.\<close>

definition satisfies :: "(cursor \<Rightarrow> 'e + pyval) \<Rightarrow> cursor \<Rightarrow> bool" where
  "satisfies predicate c = (case predicate c of Inl e \<Rightarrow> False | Inr v \<Rightarrow> truthy v)"

definition raises :: "(cursor \<Rightarrow> 'e + pyval) \<Rightarrow> cursor \<Rightarrow> bool" where
  "raises predicate c = (case predicate c of Inl e \<Rightarrow> True | Inr v \<Rightarrow> False)"

text \<open>
  The calls of a full traversal, as the specification words them: the entering call of a
  node, then, for a container, the calls of its children in order and its exit call.
\<close>

function events :: "cursor \<Rightarrow> (cursor \<times> bool) list"
  and events_items :: "seg list \<Rightarrow> (string \<times> pyval) list \<Rightarrow> (cursor \<times> bool) list"
  and events_enumerate :: "seg list \<Rightarrow> int \<Rightarrow> pyval list \<Rightarrow> (cursor \<times> bool) list"
where
  "events c =
     (c, True) # (if on_dict c then events_items (path c) (items (node c)) @ [(c, False)]
                  else if on_list c then events_enumerate (path c) 0 (elements (node c)) @ [(c, False)]
                  else [])"
| "events_items p [] = []"
| "events_items p (kv # rest) =
     events (JsonCursor (snd kv) (p @ [Key (fst kv)])) @ events_items p rest"
| "events_enumerate p i [] = []"
| "events_enumerate p i (x # rest) =
     events (JsonCursor x (p @ [Idx i])) @ events_enumerate p (i + 1) rest"
  by pat_completeness auto
termination
proof (relation "measure (\<lambda>x. case x of
          Inl c \<Rightarrow> 2 * node_count (node c)
        | Inr (Inl (p, kvs)) \<Rightarrow> 2 * node_count_items kvs + 1
        | Inr (Inr (p, i, xs)) \<Rightarrow> 2 * node_count_elements xs + 1)", goal_cases)
  case (2 c)
  then show ?case using node_count_items_less [of "node c"] by (simp add: on_dict_def)
next
  case (3 c)
  then show ?case using node_count_elements_less [of "node c"]
    by (simp add: on_dict_def on_list_def Let_def)
next
  case (4 p kv rest)
  then show ?case by simp
next
  case (5 p kv rest)
  then show ?case using node_count_positive [of "snd kv"] by simp
next
  case (7 p i x rest)
  then show ?case using node_count_positive [of x] by simp
qed simp_all

text \<open>
  The calls of a traversal in which the subtrees below the cursors of \<open>pruned\<close> are
  left out, as the specification words it: the entering call of a node; nothing more
  for a pruned node; otherwise, for a container, the calls of its children in order and
  its exit call.
\<close>

function pruned_events :: "(cursor \<Rightarrow> bool) \<Rightarrow> cursor \<Rightarrow> (cursor \<times> bool) list"
  and pruned_events_items :: "(cursor \<Rightarrow> bool) \<Rightarrow> seg list \<Rightarrow> (string \<times> pyval) list \<Rightarrow> (cursor \<times> bool) list"
  and pruned_events_enumerate :: "(cursor \<Rightarrow> bool) \<Rightarrow> seg list \<Rightarrow> int \<Rightarrow> pyval list \<Rightarrow> (cursor \<times> bool) list"
where
  "pruned_events pruned c =
     (c, True) # (if pruned c then []
                  else if on_dict c then
                    pruned_events_items pruned (path c) (items (node c)) @ [(c, False)]
                  else if on_list c then
                    pruned_events_enumerate pruned (path c) 0 (elements (node c)) @ [(c, False)]
                  else [])"
| "pruned_events_items pruned p [] = []"
| "pruned_events_items pruned p (kv # rest) =
     pruned_events pruned (JsonCursor (snd kv) (p @ [Key (fst kv)])) @ pruned_events_items pruned p rest"
| "pruned_events_enumerate pruned p i [] = []"
| "pruned_events_enumerate pruned p i (x # rest) =
     pruned_events pruned (JsonCursor x (p @ [Idx i])) @ pruned_events_enumerate pruned p (i + 1) rest"
  by pat_completeness auto
termination
proof (relation "measure (\<lambda>x. case x of
          Inl (q, c) \<Rightarrow> 2 * node_count (node c)
        | Inr (Inl (q, p, kvs)) \<Rightarrow> 2 * node_count_items kvs + 1
        | Inr (Inr (q, p, i, xs)) \<Rightarrow> 2 * node_count_elements xs + 1)", goal_cases)
  case (2 pruned c)
  then show ?case using node_count_items_less [of "node c"] by (simp add: on_dict_def)
next
  case (3 pruned c)
  then show ?case using node_count_elements_less [of "node c"]
    by (simp add: on_dict_def on_list_def Let_def)
next
  case (4 pruned p kv rest)
  then show ?case by simp
next
  case (5 pruned p kv rest)
  then show ?case using node_count_positive [of "snd kv"] by simp
next
  case (7 pruned p i x rest)
  then show ?case using node_count_positive [of x] by simp
qed simp_all

text \<open>
  What the log of a run, with its result, has to do with the traversal of the
  specification: every logged call is for a cursor of the subtree; the calls are an
  initial piece of the traversal that is pruned at the cursors answered with \<^verbatim>\<open>False\<close>, and
  all of it when the run returned; and a run in which no call raised returned.
\<close>

definition run_matches ::
    "('e + unit) \<Rightarrow> 'e entry list \<Rightarrow> cursor list \<Rightarrow> ((cursor \<Rightarrow> bool) \<Rightarrow> (cursor \<times> bool) list) \<Rightarrow> bool" where
  "run_matches res entries scope expected =
     ((\<forall>en\<in>set entries. fst en \<in> set scope)
      \<and> (\<exists>rest. expected (answered_False entries) = calls_of entries @ rest \<and> (res = Inr () \<longrightarrow> rest = []))
      \<and> ((\<forall>en\<in>set entries. \<not> raised en) \<longrightarrow> res = Inr ()))"

section \<open>Replaying a path\<close>

text \<open>
  Re-navigation from a cursor through the segments of a path, in order: a key by
  \<open>JsonCursor_getattr\<close>, an index by \<open>JsonCursor_getitem\<close>; the first failure ends it.
\<close>

fun renavigate :: "cursor \<Rightarrow> seg list \<Rightarrow> error + cursor" where
  "renavigate c [] = Inr c"
| "renavigate c (Key k # segs) =
     (case JsonCursor_getattr c k of Inl e \<Rightarrow> Inl e | Inr c' \<Rightarrow> renavigate c' segs)"
| "renavigate c (Idx i # segs) =
     (case JsonCursor_getitem c i of Inl e \<Rightarrow> Inl e | Inr c' \<Rightarrow> renavigate c' segs)"

text \<open>
  The cursors reachable from the root cursor of a tree: by a navigation step, or as the
  result of a search.
\<close>

inductive reachable :: "pyval \<Rightarrow> cursor \<Rightarrow> bool" for tree :: pyval where
  root: "reachable tree (JsonCursor_init tree None)"
| by_key: "reachable tree c \<Longrightarrow> JsonCursor_getattr c name = Inr c' \<Longrightarrow> reachable tree c'"
| by_index: "reachable tree c \<Longrightarrow> JsonCursor_getitem c index = Inr c' \<Longrightarrow> reachable tree c'"
| by_search: "reachable tree c \<Longrightarrow>
     JsonCursor_search c (predicate :: cursor \<Rightarrow> error + pyval) = Inr (Some c') \<Longrightarrow> reachable tree c'"

text \<open>The cursors reachable by navigation steps alone.\<close>

inductive navigable :: "pyval \<Rightarrow> cursor \<Rightarrow> bool" for tree :: pyval where
  root: "navigable tree (JsonCursor_init tree None)"
| by_key: "navigable tree c \<Longrightarrow> JsonCursor_getattr c name = Inr c' \<Longrightarrow> navigable tree c'"
| by_index: "navigable tree c \<Longrightarrow> JsonCursor_getitem c index = Inr c' \<Longrightarrow> navigable tree c'"

text \<open>
  The outcome of a replay that is either the cursor looked for or a refusal of the
  navigation at a container that is no \<^verbatim>\<open>dict\<close> or \<^verbatim>\<open>list\<close>.
\<close>

definition replayed_or_refused :: "error + cursor \<Rightarrow> cursor \<Rightarrow> bool" where
  "replayed_or_refused r c = (r = Inr c \<or> r = Inl TypeMismatch \<or> r = Inl NotASequence)"

text \<open>
  The defining equations of the traversals are used by name in the proofs, not as
  rewrite rules.
\<close>

declare recursive_search.simps(1) [simp del]
declare recursive_visit.simps(1) [simp del]
declare preorder.simps(1) [simp del]
declare events.simps(1) [simp del]
declare pruned_events.simps(1) [simp del]

text \<open>
  The first match of a predicate along a list of cursors, as the specification describes
  the search: the cursors are tried in order, an exception ends the scan, and the first
  cursor with a true answer is the result.
\<close>

fun first_match :: "(cursor \<Rightarrow> 'e + pyval) \<Rightarrow> cursor list \<Rightarrow> 'e + cursor option" where
  "first_match predicate [] = Inr None"
| "first_match predicate (x # xs) =
     (case predicate x of
        Inl e \<Rightarrow> Inl e
      | Inr v \<Rightarrow> if truthy v then Inr (Some x) else first_match predicate xs)"


text \<open>The predicate that returns the truth value of what \<open>predicate\<close> returns.\<close>

definition truth_value_only :: "(cursor \<Rightarrow> 'e + pyval) \<Rightarrow> cursor \<Rightarrow> 'e + pyval" where
  "truth_value_only predicate c =
     (case predicate c of Inl e \<Rightarrow> Inl e | Inr v \<Rightarrow> Inr (PBool (truthy v)))"

section \<open>The path list as a shared object\<close>

text \<open>
  A Python list is an object: two references to it see each other's changes. To state
  what \<^verbatim>\<open>get_path\<close> hands out, the path lists live in a store (a list of lists, a reference
  being an index into it), and a cursor object holds its node and a reference to its
  path list. \<open>init_object\<close> is \<^verbatim>\<open>__init__\<close> with \<^verbatim>\<open>self.path = path or []\<close>: the caller's list
  itself unless it is absent or empty, and then a new empty list. \<open>get_path\<close> is
  \<^verbatim>\<open>return self.path\<close>: the reference. \<open>list_append\<close> is the caller's \<^verbatim>\<open>lst.append(x)\<close> on a
  list it holds. \<open>getitem_object\<close> is \<^verbatim>\<open>__getitem__\<close>, where \<^verbatim>\<open>self.path + [index]\<close> builds a new
  list. \<open>cursor_of\<close> reads a cursor object as the cursor value of the sections above.
  A reference that a program holds is always an index below the length of the store.
\<close>

type_synonym heap = "seg list list"

datatype cursor_object = CursorObject (object_node: pyval) (object_path: nat)

definition init_object :: "heap \<Rightarrow> pyval \<Rightarrow> nat option \<Rightarrow> heap \<times> cursor_object" where
  "init_object h n p =
     (case p of
        None \<Rightarrow> (h @ [[]], CursorObject n (length h))
      | Some r \<Rightarrow> if h ! r = [] then (h @ [[]], CursorObject n (length h))
                  else (h, CursorObject n r))"

definition get_path :: "cursor_object \<Rightarrow> nat" where
  "get_path self = object_path self"

definition list_append :: "heap \<Rightarrow> nat \<Rightarrow> seg \<Rightarrow> heap" where
  "list_append h r x = h[r := h ! r @ [x]]"

definition getitem_object :: "heap \<Rightarrow> cursor_object \<Rightarrow> int \<Rightarrow> error + heap \<times> cursor_object" where
  "getitem_object h self index =
     (if isinstance_list (object_node self) then
        (if 0 \<le> index \<and> index < int (length (elements (object_node self)))
         then Inr (h @ [h ! object_path self @ [Idx index]],
                   CursorObject (elements (object_node self) ! nat index) (length h))
         else Inl IndexOutOfRange)
      else Inl NotASequence)"

definition cursor_of :: "heap \<Rightarrow> cursor_object \<Rightarrow> cursor" where
  "cursor_of h obj = JsonCursor (object_node obj) (h ! object_path obj)"

section \<open>Examples\<close>

text \<open>The tree \<^verbatim>\<open>{"user": {"name": "Alice", "tags": ["x", "y"]}}\<close> of the specification.\<close>

definition example_root :: pyval where
  "example_root =
     PDict [(''user'', PDict [(''name'', PStr ''Alice''), (''tags'', PList [PStr ''x'', PStr ''y''])])]"





text \<open>The predicate \<^verbatim>\<open>lambda c: c.on_data() and c.value() == "y"\<close>.\<close>

definition is_y :: "cursor \<Rightarrow> error + pyval" where
  "is_y c = (if on_data c then
               (case JsonCursor_value c of Inl e \<Rightarrow> Inl e | Inr v \<Rightarrow> Inr (PBool (v = PStr ''y'')))
             else Inr (PBool False))"


definition silent_handler :: "(error, nat) handler" where
  "silent_handler c entering n = (Inr PNone, n + 1)"


text \<open>
  A predicate that answers with a string, empty unless the node is \<^verbatim>\<open>"y"\<close>, and one that
  looks for the integer \<^verbatim>\<open>1\<close>.
\<close>

definition label_y :: "cursor \<Rightarrow> error + pyval" where
  "label_y c = Inr (if node c = PStr ''y'' then PStr ''found'' else PStr '''')"

definition is_one :: "cursor \<Rightarrow> error + pyval" where
  "is_one c = Inr (PBool (node c = PInt 1))"

section \<open>Classification\<close>

text \<open>
  Claim C9, as stated, says that exactly one of the three tests holds on every node and
  that no string or byte-like value is classified as a Sequence. \<^verbatim>\<open>on_dict\<close> and \<^verbatim>\<open>on_list\<close>
  are independent tests: both hold for an object that is a \<^verbatim>\<open>Mapping\<close> and a \<^verbatim>\<open>Sequence\<close>. And
  \<^verbatim>\<open>on_list\<close> leaves out \<^verbatim>\<open>str\<close>, \<^verbatim>\<open>bytes\<close> and \<^verbatim>\<open>bytearray\<close> only: it holds for a \<^verbatim>\<open>memoryview\<close>.
\<close>

theorem classification_not_exclusive:
  "on_dict (JsonCursor (PMappingSequence [(''a'', PInt 1)]) [])
   \<and> on_list (JsonCursor (PMappingSequence [(''a'', PInt 1)]) [])
   \<and> on_list (JsonCursor (PMemoryview ''ab'') [])"
  by (simp add: on_dict_def on_list_def)

text \<open>
  Claim C9, amended. The three classification tests are total functions into the
  Booleans, so they cannot fail. On every node at least one of them holds, and \<open>on_data\<close>
  is the negation of the other two. \<open>on_dict\<close> and \<open>on_list\<close> hold together exactly on a
  node that is both a \<^verbatim>\<open>Mapping\<close> and a \<^verbatim>\<open>Sequence\<close> (and no \<^verbatim>\<open>str\<close>, \<^verbatim>\<open>bytes\<close> or \<^verbatim>\<open>bytearray\<close>);
  on every other node exactly one of the three holds. No \<^verbatim>\<open>str\<close>, \<^verbatim>\<open>bytes\<close> or \<^verbatim>\<open>bytearray\<close> is a sequence: \<^verbatim>\<open>"ab"\<close> is not one,
  \<^verbatim>\<open>["a", "b"]\<close> is.
\<close>

theorem classification_behaviour:
  "(on_dict c \<or> on_list c \<or> on_data c)
   \<and> on_data c = (\<not> on_dict c \<and> \<not> on_list c)
   \<and> ((on_dict c \<and> on_list c)
        = (isinstance_Mapping (node c) \<and> isinstance_Sequence (node c)
           \<and> \<not> isinstance_str_bytes_bytearray (node c)))
   \<and> (\<not> (isinstance_Mapping (node c) \<and> isinstance_Sequence (node c)
           \<and> \<not> isinstance_str_bytes_bytearray (node c)) \<longrightarrow>
        (on_dict c \<and> \<not> on_list c \<and> \<not> on_data c)
        \<or> (\<not> on_dict c \<and> on_list c \<and> \<not> on_data c)
        \<or> (\<not> on_dict c \<and> \<not> on_list c \<and> on_data c))
   \<and> \<not> on_list (JsonCursor (PStr s) p)
   \<and> \<not> on_list (JsonCursor (PBytes s) p)
   \<and> \<not> on_list (JsonCursor (PByteArray s) p)
   \<and> \<not> on_list (JsonCursor (PStr ''ab'') [])
   \<and> on_list (JsonCursor (PList [PStr ''a'', PStr ''b'']) [])"
  by (cases "node c") (simp_all add: on_dict_def on_list_def on_data_def)

theorem classification_behaviour_witness:
  "on_dict (JsonCursor (PDict [(''k'', PInt 1)]) [])
   \<and> \<not> on_list (JsonCursor (PDict [(''k'', PInt 1)]) [])
   \<and> \<not> on_data (JsonCursor (PDict [(''k'', PInt 1)]) [])
   \<and> on_data (JsonCursor (PStr ''ab'') [])"
  using classification_behaviour [of "JsonCursor (PDict [(''k'', PInt 1)]) []"]
    classification_behaviour [of "JsonCursor (PStr ''ab'') []"]
  by (simp add: on_dict_def)

section \<open>Addressing\<close>

lemma KeyNotFound_neq_TypeMismatch: "KeyNotFound name \<noteq> TypeMismatch"
  by (simp add: KeyNotFound_def TypeMismatch_def)

lemma IndexOutOfRange_neq_NotASequence: "IndexOutOfRange \<noteq> NotASequence"
  by (simp add: IndexOutOfRange_def NotASequence_def)

text \<open>
  Claim C6, as stated, says that \<open>childByKey\<close> fails with \<open>TypeMismatch\<close> exactly when
  the node is not a Mapping. \<^verbatim>\<open>__getattr__\<close> tests \<^verbatim>\<open>isinstance(self.node, dict)\<close>: on a
  Mapping that is not a \<^verbatim>\<open>dict\<close> it fails with \<open>TypeMismatch\<close> although \<open>on_dict\<close> holds and
  the key is present.
\<close>

theorem getattr_on_non_dict_mapping:
  "on_dict (JsonCursor (PMapping [(''a'', PInt 1)]) [])
   \<and> JsonCursor_getattr (JsonCursor (PMapping [(''a'', PInt 1)]) []) ''a'' = Inl TypeMismatch"
  by (simp add: on_dict_def JsonCursor_getattr_def)

text \<open>
  Claim C6, amended. \<open>childByKey name\<close> fails with \<open>TypeMismatch\<close> exactly when the node is
  not a \<^verbatim>\<open>dict\<close>; on a \<^verbatim>\<open>dict\<close> it fails with \<open>KeyNotFound\<close> exactly when \<open>name\<close> is not among
  the keys; otherwise it returns the cursor of the entry's value with the path extended
  by \<open>name\<close>.
\<close>

theorem getattr_behaviour:
  "(JsonCursor_getattr c name = Inl TypeMismatch \<longleftrightarrow> \<not> isinstance_dict (node c))
   \<and> (isinstance_dict (node c) \<longrightarrow>
        (JsonCursor_getattr c name = Inl (KeyNotFound name) \<longleftrightarrow> name \<notin> fst ` set (items (node c))))
   \<and> (\<forall>child. isinstance_dict (node c) \<and> distinct (map fst (items (node c)))
          \<and> (name, child) \<in> set (items (node c)) \<longrightarrow>
        JsonCursor_getattr c name = Inr (JsonCursor child (path c @ [Key name])))"
proof (intro conjI allI impI)
  show "JsonCursor_getattr c name = Inl TypeMismatch \<longleftrightarrow> \<not> isinstance_dict (node c)"
    by (simp add: JsonCursor_getattr_def KeyNotFound_neq_TypeMismatch split: option.split)
next
  assume "isinstance_dict (node c)"
  then show "JsonCursor_getattr c name = Inl (KeyNotFound name) \<longleftrightarrow> name \<notin> fst ` set (items (node c))"
    by (cases "map_of (items (node c)) name")
      (simp_all add: JsonCursor_getattr_def map_of_eq_None_iff [symmetric])
next
  fix child
  assume "isinstance_dict (node c) \<and> distinct (map fst (items (node c))) \<and> (name, child) \<in> set (items (node c))"
  then have "map_of (items (node c)) name = Some child" "isinstance_dict (node c)"
    by simp_all
  then show "JsonCursor_getattr c name = Inr (JsonCursor child (path c @ [Key name]))"
    by (simp add: JsonCursor_getattr_def)
qed

theorem getattr_behaviour_witness:
  "JsonCursor_getattr (JsonCursor (PDict [(''user'', PStr ''Alice'')]) []) ''user''
     = Inr (JsonCursor (PStr ''Alice'') [Key ''user''])
   \<and> JsonCursor_getattr (JsonCursor (PDict [(''user'', PStr ''Alice'')]) []) ''missing''
     = Inl (KeyNotFound ''missing'')
   \<and> JsonCursor_getattr (JsonCursor (PStr ''Alice'') [Key ''user'']) ''x'' = Inl TypeMismatch"
  using getattr_behaviour [of "JsonCursor (PDict [(''user'', PStr ''Alice'')]) []" "''user''"]
    getattr_behaviour [of "JsonCursor (PDict [(''user'', PStr ''Alice'')]) []" "''missing''"]
    getattr_behaviour [of "JsonCursor (PStr ''Alice'') [Key ''user'']" "''x''"]
  by simp

text \<open>
  Claim C5, as stated, says that \<open>childByIndex\<close> fails with \<open>NotASequence\<close> exactly when
  the node is not classified as a Sequence. \<^verbatim>\<open>__getitem__\<close> tests
  \<^verbatim>\<open>isinstance(self.node, list)\<close>: on a sequence that is not a \<^verbatim>\<open>list\<close>, a tuple say, it fails
  with \<open>NotASequence\<close> although \<open>on_list\<close> holds and the index is in range.
\<close>

theorem getitem_on_non_list_sequence:
  "on_list (JsonCursor (PTuple [PInt 1]) [])
   \<and> JsonCursor_getitem (JsonCursor (PTuple [PInt 1]) []) 0 = Inl NotASequence"
  by (simp add: on_list_def JsonCursor_getitem_def)

text \<open>
  Claim C5, amended. \<open>childByIndex i\<close> fails with \<open>NotASequence\<close> exactly when the node is
  not a \<^verbatim>\<open>list\<close>; on a \<^verbatim>\<open>list\<close> it fails with \<open>IndexOutOfRange\<close> exactly when \<open>i\<close> is outside
  \<open>[0, length)\<close>; otherwise it returns the cursor of the \<open>i\<close>-th element with the path
  extended by \<open>i\<close>.
\<close>

theorem getitem_behaviour:
  "(JsonCursor_getitem c i = Inl NotASequence \<longleftrightarrow> \<not> isinstance_list (node c))
   \<and> (isinstance_list (node c) \<longrightarrow>
        (JsonCursor_getitem c i = Inl IndexOutOfRange
           \<longleftrightarrow> \<not> (0 \<le> i \<and> i < int (length (elements (node c))))))
   \<and> (isinstance_list (node c) \<and> 0 \<le> i \<and> i < int (length (elements (node c))) \<longrightarrow>
        JsonCursor_getitem c i = Inr (JsonCursor (elements (node c) ! nat i) (path c @ [Idx i])))"
  by (simp add: JsonCursor_getitem_def IndexOutOfRange_neq_NotASequence)

theorem getitem_behaviour_witness:
  "JsonCursor_getitem (JsonCursor (PList [PStr ''x'', PStr ''y'']) [Key ''tags'']) 1
     = Inr (JsonCursor (PStr ''y'') [Key ''tags'', Idx 1])
   \<and> JsonCursor_getitem (JsonCursor (PList [PStr ''x'', PStr ''y'']) [Key ''tags'']) 5
     = Inl IndexOutOfRange
   \<and> JsonCursor_getitem (JsonCursor (PList [PStr ''x'', PStr ''y'']) [Key ''tags'']) (- 1)
     = Inl IndexOutOfRange
   \<and> JsonCursor_getitem (JsonCursor (PStr ''ab'') []) 0 = Inl NotASequence"
  using getitem_behaviour [of "JsonCursor (PList [PStr ''x'', PStr ''y'']) [Key ''tags'']" 1]
    getitem_behaviour [of "JsonCursor (PList [PStr ''x'', PStr ''y'']) [Key ''tags'']" 5]
    getitem_behaviour [of "JsonCursor (PList [PStr ''x'', PStr ''y'']) [Key ''tags'']" "- 1"]
    getitem_behaviour [of "JsonCursor (PStr ''ab'') []" 0]
  by simp

text \<open>
  Claim C7 says that \<open>value()\<close> fails with \<open>NotATerminal\<close> on every Mapping and Sequence.
  \<^verbatim>\<open>value\<close> tests \<^verbatim>\<open>isinstance(self.node, (dict, list))\<close>: on a tuple, which \<open>on_list\<close> classifies
  as a sequence and \<open>on_data\<close> as no terminal, and on a Mapping that is not a \<^verbatim>\<open>dict\<close>, it
  returns the container itself.
\<close>

theorem value_on_non_list_sequence:
  "on_list (JsonCursor (PTuple [PInt 1]) [])
   \<and> \<not> on_data (JsonCursor (PTuple [PInt 1]) [])
   \<and> JsonCursor_value (JsonCursor (PTuple [PInt 1]) []) = Inr (PTuple [PInt 1])
   \<and> on_dict (JsonCursor (PMapping [(''a'', PInt 1)]) [])
   \<and> JsonCursor_value (JsonCursor (PMapping [(''a'', PInt 1)]) []) = Inr (PMapping [(''a'', PInt 1)])"
  by (simp add: on_list_def on_dict_def on_data_def JsonCursor_value_def)

text \<open>
  What \<^verbatim>\<open>value\<close> does on the other nodes: it fails with \<open>NotATerminal\<close> exactly on a
  \<^verbatim>\<open>dict\<close> or \<^verbatim>\<open>list\<close>, and returns a terminal node as it is.
\<close>

lemma value_behaviour:
  "(JsonCursor_value c = Inl NotATerminal \<longleftrightarrow> isinstance_dict (node c) \<or> isinstance_list (node c))
   \<and> (on_data c \<longrightarrow> JsonCursor_value c = Inr (node c))"
  by (cases "node c") (simp_all add: JsonCursor_value_def on_data_def on_dict_def on_list_def)

section \<open>Search finds the first match in pre-order\<close>

lemma first_match_append:
  "first_match p (xs @ ys) =
     (case first_match p xs of
        Inl e \<Rightarrow> Inl e
      | Inr (Some r) \<Rightarrow> Inr (Some r)
      | Inr None \<Rightarrow> first_match p ys)"
  by (induction xs) (simp_all split: sum.split)

lemma search_first_match:
  "recursive_search p c = first_match p (preorder c)"
  "search_items p pa kvs = first_match p (preorder_items pa kvs)"
  "search_enumerate p pa i xs = first_match p (preorder_enumerate pa i xs)"
proof (induction c and pa kvs and pa i xs rule: preorder_preorder_items_preorder_enumerate.induct)
  case (1 c)
  then show ?case
    by (auto simp: recursive_search.simps(1) [of p c] preorder.simps(1) [of c] on_dict_def on_list_def Let_def
        split: sum.split)
next
  case (3 pa kv rest)
  then show ?case
    by (cases kv) (simp add: first_match_append split: sum.split option.split)
next
  case (5 pa i x rest)
  then show ?case
    by (simp add: first_match_append split: sum.split option.split)
qed simp_all



lemma first_match_Some:
  "first_match p xs = Inr (Some r) \<Longrightarrow>
     satisfies p r \<and> (\<exists>ys zs. xs = ys @ r # zs \<and> (\<forall>y\<in>set ys. \<not> satisfies p y \<and> \<not> raises p y))"
proof (induction xs)
  case Nil
  then show ?case by simp
next
  case (Cons x xs)
  show ?case
  proof (cases "p x")
    case (Inl e)
    with Cons.prems show ?thesis by simp
  next
    case (Inr v)
    show ?thesis
    proof (cases "truthy v")
      case True
      with Inr Cons.prems have "r = x" by simp
      with Inr True have "satisfies p r" by (simp add: satisfies_def)
      moreover have "x # xs = [] @ r # xs" using \<open>r = x\<close> by simp
      ultimately show ?thesis by fastforce
    next
      case False
      with Inr Cons.prems have "first_match p xs = Inr (Some r)" by simp
      from Cons.IH [OF this] obtain ys zs where
        sat: "satisfies p r" and split: "xs = ys @ r # zs"
        and before: "\<forall>y\<in>set ys. \<not> satisfies p y \<and> \<not> raises p y"
        by blast
      have "x # xs = (x # ys) @ r # zs" using split by simp
      moreover have "\<forall>y\<in>set (x # ys). \<not> satisfies p y \<and> \<not> raises p y"
        using before Inr False by (simp add: satisfies_def raises_def)
      ultimately show ?thesis using sat by blast
    qed
  qed
qed



lemma preorder_example:
  "preorder (JsonCursor example_root []) =
     [JsonCursor example_root [],
      JsonCursor (PDict [(''name'', PStr ''Alice''), (''tags'', PList [PStr ''x'', PStr ''y''])]) [Key ''user''],
      JsonCursor (PStr ''Alice'') [Key ''user'', Key ''name''],
      JsonCursor (PList [PStr ''x'', PStr ''y'']) [Key ''user'', Key ''tags''],
      JsonCursor (PStr ''x'') [Key ''user'', Key ''tags'', Idx 0],
      JsonCursor (PStr ''y'') [Key ''user'', Key ''tags'', Idx 1]]"
  by (simp add: example_root_def on_dict_def on_list_def preorder.simps(1))


lemma first_match_truth_value_only:
  "first_match (truth_value_only p) xs = first_match p xs"
  by (induction xs) (simp_all add: truth_value_only_def split: sum.split)

lemma first_match_at:
  "\<forall>y\<in>set before. \<exists>v. p y = Inr v \<and> \<not> truthy v \<Longrightarrow> p r = Inr v \<Longrightarrow> truthy v
     \<Longrightarrow> first_match p (before @ r # after) = Inr (Some r)"
  by (induction before) auto

lemma first_match_nowhere:
  "\<forall>y\<in>set xs. \<exists>v. p y = Inr v \<and> \<not> truthy v \<Longrightarrow> first_match p xs = Inr None"
  by (induction xs) auto

lemma answered_false_iff:
  "(\<not> satisfies p y \<and> \<not> raises p y) = (\<exists>v. p y = Inr v \<and> \<not> truthy v)"
  by (cases "p y") (simp_all add: satisfies_def raises_def)

text \<open>
  Claim C10. \<^verbatim>\<open>search\<close> reads nothing but the truth value of what the predicate returns:
  the search with a predicate and the search with its truth values give the same result.
  A node counts as a match exactly when the predicate returns a true object for it,
  whatever kind of object that is: the first node in pre-order with a true answer, all
  nodes before it having false answers, is returned, at whatever depth it lies; the
  result is \<^verbatim>\<open>None\<close> when every answer is false; and a returned node has a true answer and
  only false answers before it.
\<close>

theorem search_matches_on_truthy:
  "JsonCursor_search c (truth_value_only predicate) = JsonCursor_search c predicate
   \<and> (\<forall>v. predicate c = Inr v \<and> truthy v \<longrightarrow> JsonCursor_search c predicate = Inr (Some c))
   \<and> (\<forall>before r after.
         preorder c = before @ r # after
         \<and> (\<forall>y\<in>set before. \<exists>v. predicate y = Inr v \<and> \<not> truthy v)
         \<and> (\<exists>v. predicate r = Inr v \<and> truthy v)
         \<longrightarrow> JsonCursor_search c predicate = Inr (Some r))
   \<and> ((\<forall>y\<in>set (preorder c). \<exists>v. predicate y = Inr v \<and> \<not> truthy v)
         \<longrightarrow> JsonCursor_search c predicate = Inr None)
   \<and> (\<forall>r. JsonCursor_search c predicate = Inr (Some r) \<longrightarrow>
         (\<exists>v. predicate r = Inr v \<and> truthy v)
         \<and> (\<exists>before after. preorder c = before @ r # after
               \<and> (\<forall>y\<in>set before. \<exists>v. predicate y = Inr v \<and> \<not> truthy v)))"
proof (intro conjI allI impI)
  show "JsonCursor_search c (truth_value_only predicate) = JsonCursor_search c predicate"
    by (simp add: JsonCursor_search_def search_first_match(1) first_match_truth_value_only)
next
  fix v assume "predicate c = Inr v \<and> truthy v"
  then show "JsonCursor_search c predicate = Inr (Some c)"
    by (simp add: JsonCursor_search_def search_first_match(1) preorder.simps(1) [of c])
next
  fix before r after
  assume a: "preorder c = before @ r # after
         \<and> (\<forall>y\<in>set before. \<exists>v. predicate y = Inr v \<and> \<not> truthy v)
         \<and> (\<exists>v. predicate r = Inr v \<and> truthy v)"
  then obtain v where "predicate r = Inr v" "truthy v" by blast
  with a have "first_match predicate (before @ r # after) = Inr (Some r)"
    by (intro first_match_at) blast+
  with a show "JsonCursor_search c predicate = Inr (Some r)"
    by (simp add: JsonCursor_search_def search_first_match(1))
next
  assume "\<forall>y\<in>set (preorder c). \<exists>v. predicate y = Inr v \<and> \<not> truthy v"
  then show "JsonCursor_search c predicate = Inr None"
    by (simp add: JsonCursor_search_def search_first_match(1) first_match_nowhere)
next
  fix r assume "JsonCursor_search c predicate = Inr (Some r)"
  then have "first_match predicate (preorder c) = Inr (Some r)"
    by (simp add: JsonCursor_search_def search_first_match(1))
  from first_match_Some [OF this] have "satisfies predicate r" by blast
  then show "\<exists>v. predicate r = Inr v \<and> truthy v"
    by (cases "predicate r") (simp_all add: satisfies_def)
next
  fix r assume "JsonCursor_search c predicate = Inr (Some r)"
  then have "first_match predicate (preorder c) = Inr (Some r)"
    by (simp add: JsonCursor_search_def search_first_match(1))
  from first_match_Some [OF this]
  show "\<exists>before after. preorder c = before @ r # after
               \<and> (\<forall>y\<in>set before. \<exists>v. predicate y = Inr v \<and> \<not> truthy v)"
    by (simp add: answered_false_iff)
qed

theorem search_matches_on_truthy_witness:
  "label_y (JsonCursor (PStr ''y'') [Key ''user'', Key ''tags'', Idx 1]) = Inr (PStr ''found'')
   \<and> JsonCursor_search (JsonCursor example_root []) label_y
       = Inr (Some (JsonCursor (PStr ''y'') [Key ''user'', Key ''tags'', Idx 1]))
   \<and> JsonCursor_search (JsonCursor (PStr ''Alice'') [Key ''user'', Key ''name'']) label_y = Inr None"
proof -
  let ?before = "[JsonCursor example_root [],
      JsonCursor (PDict [(''name'', PStr ''Alice''), (''tags'', PList [PStr ''x'', PStr ''y''])]) [Key ''user''],
      JsonCursor (PStr ''Alice'') [Key ''user'', Key ''name''],
      JsonCursor (PList [PStr ''x'', PStr ''y'']) [Key ''user'', Key ''tags''],
      JsonCursor (PStr ''x'') [Key ''user'', Key ''tags'', Idx 0]]"
  let ?y = "JsonCursor (PStr ''y'') [Key ''user'', Key ''tags'', Idx 1]"
  have split: "preorder (JsonCursor example_root []) = ?before @ ?y # []"
    by (simp add: preorder_example)
  have falsy: "\<forall>c\<in>set ?before. \<exists>v. label_y c = Inr v \<and> \<not> truthy v"
    by (simp add: label_y_def example_root_def)
  have hit: "\<exists>v. label_y ?y = Inr v \<and> truthy v" by (simp add: label_y_def)
  have leaf: "preorder (JsonCursor (PStr ''Alice'') [Key ''user'', Key ''name''])
      = [JsonCursor (PStr ''Alice'') [Key ''user'', Key ''name'']]"
    by (simp add: preorder.simps(1) on_dict_def on_list_def)
  have none: "\<forall>c\<in>set (preorder (JsonCursor (PStr ''Alice'') [Key ''user'', Key ''name''])).
      \<exists>v. label_y c = Inr v \<and> \<not> truthy v"
    unfolding leaf by (simp add: label_y_def)
  from search_matches_on_truthy [of "JsonCursor example_root []" label_y] split falsy hit
  have "JsonCursor_search (JsonCursor example_root []) label_y = Inr (Some ?y)" by blast
  moreover from search_matches_on_truthy [of "JsonCursor (PStr ''Alice'') [Key ''user'', Key ''name'']" label_y]
    none
  have "JsonCursor_search (JsonCursor (PStr ''Alice'') [Key ''user'', Key ''name'']) label_y = Inr None"
    by blast
  ultimately show ?thesis by (simp add: label_y_def)
qed

section \<open>Visit\<close>






lemma preorder_paths:
  "\<forall>x\<in>set (preorder c). \<exists>q. path x = path c @ q"
  "\<forall>x\<in>set (preorder_items pa kvs). \<exists>k q. k \<in> fst ` set kvs \<and> path x = pa @ Key k # q"
  "\<forall>x\<in>set (preorder_enumerate pa i xs). \<exists>j q. i \<le> j \<and> j < i + int (length xs) \<and> path x = pa @ Idx j # q"
proof (induction c and pa kvs and pa i xs rule: preorder_preorder_items_preorder_enumerate.induct)
  case (1 c)
  show ?case
  proof
    fix x assume "x \<in> set (preorder c)"
    then consider "x = c" | "on_dict c" "x \<in> set (preorder_items (path c) (items (node c)))"
      | "\<not> on_dict c" "on_list c" "x \<in> set (preorder_enumerate (path c) 0 (elements (node c)))"
      by (auto simp: preorder.simps(1) [of c] split: if_splits)
    then show "\<exists>q. path x = path c @ q"
    proof cases
      case 1
      then show ?thesis by simp
    next
      case 2
      with "1.IH"(1) obtain k q where "path x = path c @ Key k # q" by blast
      then show ?thesis by blast
    next
      case 3
      with "1.IH"(2) obtain j q where "path x = path c @ Idx j # q" by blast
      then show ?thesis by blast
    qed
  qed
next
  case (2 p)
  then show ?case by simp
next
  case (3 p kv rest)
  show ?case
  proof
    fix x assume "x \<in> set (preorder_items p (kv # rest))"
    then consider "x \<in> set (preorder (JsonCursor (snd kv) (p @ [Key (fst kv)])))"
      | "x \<in> set (preorder_items p rest)"
      by auto
    then show "\<exists>k q. k \<in> fst ` set (kv # rest) \<and> path x = p @ Key k # q"
    proof cases
      case 1
      with "3.IH"(1) obtain q where "path x = (p @ [Key (fst kv)]) @ q" by fastforce
      then have "fst kv \<in> fst ` set (kv # rest) \<and> path x = p @ Key (fst kv) # q" by simp
      then show ?thesis by blast
    next
      case 2
      with "3.IH"(2) obtain k q where "k \<in> fst ` set rest" "path x = p @ Key k # q" by blast
      then have "k \<in> fst ` set (kv # rest) \<and> path x = p @ Key k # q" by simp
      then show ?thesis by blast
    qed
  qed
next
  case (4 p i)
  then show ?case by simp
next
  case (5 p i y rest)
  show ?case
  proof
    fix x assume "x \<in> set (preorder_enumerate p i (y # rest))"
    then consider "x \<in> set (preorder (JsonCursor y (p @ [Idx i])))"
      | "x \<in> set (preorder_enumerate p (i + 1) rest)"
      by auto
    then show "\<exists>j q. i \<le> j \<and> j < i + int (length (y # rest)) \<and> path x = p @ Idx j # q"
    proof cases
      case 1
      with "5.IH"(1) obtain q where "path x = (p @ [Idx i]) @ q" by fastforce
      then have "i \<le> i \<and> i < i + int (length (y # rest)) \<and> path x = p @ Idx i # q" by simp
      then show ?thesis by blast
    next
      case 2
      with "5.IH"(2) obtain j q where "i + 1 \<le> j" "j < i + 1 + int (length rest)" "path x = p @ Idx j # q"
        by blast
      then have "i \<le> j \<and> j < i + int (length (y # rest)) \<and> path x = p @ Idx j # q" by simp
      then show ?thesis by blast
    qed
  qed
qed

lemma wf_on_dict:
  "on_dict c \<Longrightarrow> wf_node (node c) \<Longrightarrow> distinct (map fst (items (node c))) \<and> wf_items (items (node c))"
  by (cases "node c") (simp_all add: on_dict_def)

lemma wf_elements_memoryview: "wf_elements (map (\<lambda>b. PInt (of_char b)) s)"
  by (induction s) simp_all

lemma wf_on_list:
  "on_list c \<Longrightarrow> wf_node (node c) \<Longrightarrow> wf_elements (elements (node c))"
  by (cases "node c") (simp_all add: on_list_def Let_def wf_elements_memoryview)

lemma distinct_preorder:
  "wf_node (node c) \<longrightarrow> distinct (preorder c)"
  "distinct (map fst kvs) \<and> wf_items kvs \<longrightarrow> distinct (preorder_items pa kvs)"
  "wf_elements xs \<longrightarrow> distinct (preorder_enumerate pa i xs)"
proof (induction c and pa kvs and pa i xs rule: preorder_preorder_items_preorder_enumerate.induct)
  case (1 c)
  show ?case
  proof
    assume wf: "wf_node (node c)"
    show "distinct (preorder c)"
    proof (cases "on_dict c")
      case True
      from wf_on_dict [OF True wf] "1.IH"(1) [OF True]
      have d: "distinct (preorder_items (path c) (items (node c)))" by blast
      have "c \<notin> set (preorder_items (path c) (items (node c)))"
      proof
        assume "c \<in> set (preorder_items (path c) (items (node c)))"
        with preorder_paths(2) [of "path c" "items (node c)"]
        obtain k q where "path c = path c @ Key k # q" by blast
        then show False by simp
      qed
      with d True show ?thesis by (simp add: preorder.simps(1) [of c])
    next
      case False
      show ?thesis
      proof (cases "on_list c")
        case True
        from wf_on_list [OF True wf] "1.IH"(2) [OF False True]
        have d: "distinct (preorder_enumerate (path c) 0 (elements (node c)))" by blast
        have "c \<notin> set (preorder_enumerate (path c) 0 (elements (node c)))"
        proof
          assume "c \<in> set (preorder_enumerate (path c) 0 (elements (node c)))"
          with preorder_paths(3) [of "path c" 0 "elements (node c)"]
          obtain j q where "path c = path c @ Idx j # q" by blast
          then show False by simp
        qed
        with d True False show ?thesis by (simp add: preorder.simps(1) [of c])
      next
        case nolist: False
        with False show ?thesis by (simp add: preorder.simps(1) [of c])
      qed
    qed
  qed
next
  case (2 p)
  then show ?case by simp
next
  case (3 p kv rest)
  show ?case
  proof
    assume a: "distinct (map fst (kv # rest)) \<and> wf_items (kv # rest)"
    then have d1: "distinct (preorder (JsonCursor (snd kv) (p @ [Key (fst kv)])))"
      and d2: "distinct (preorder_items p rest)"
      using "3.IH" by simp_all
    have "set (preorder (JsonCursor (snd kv) (p @ [Key (fst kv)]))) \<inter> set (preorder_items p rest) = {}"
    proof (rule ccontr)
      assume "\<not> ?thesis"
      then obtain x where x1: "x \<in> set (preorder (JsonCursor (snd kv) (p @ [Key (fst kv)])))"
        and x2: "x \<in> set (preorder_items p rest)" by blast
      from x1 preorder_paths(1) [of "JsonCursor (snd kv) (p @ [Key (fst kv)])"]
      obtain q where q: "path x = (p @ [Key (fst kv)]) @ q" by fastforce
      from x2 preorder_paths(2) [of p rest]
      obtain k q' where k: "k \<in> fst ` set rest" "path x = p @ Key k # q'" by blast
      from q k(2) have "k = fst kv" by simp
      with k(1) a show False by simp
    qed
    with d1 d2 show "distinct (preorder_items p (kv # rest))" by simp
  qed
next
  case (4 p i)
  then show ?case by simp
next
  case (5 p i y rest)
  show ?case
  proof
    assume a: "wf_elements (y # rest)"
    then have d1: "distinct (preorder (JsonCursor y (p @ [Idx i])))"
      and d2: "distinct (preorder_enumerate p (i + 1) rest)"
      using "5.IH" by simp_all
    have "set (preorder (JsonCursor y (p @ [Idx i]))) \<inter> set (preorder_enumerate p (i + 1) rest) = {}"
    proof (rule ccontr)
      assume "\<not> ?thesis"
      then obtain x where x1: "x \<in> set (preorder (JsonCursor y (p @ [Idx i])))"
        and x2: "x \<in> set (preorder_enumerate p (i + 1) rest)" by blast
      from x1 preorder_paths(1) [of "JsonCursor y (p @ [Idx i])"]
      obtain q where q: "path x = (p @ [Idx i]) @ q" by fastforce
      from x2 preorder_paths(3) [of p "i + 1" rest]
      obtain j q' where j: "i + 1 \<le> j" "path x = p @ Idx j # q'" by blast
      from q j(2) have "j = i" by simp
      with j(1) show False by simp
    qed
    with d1 d2 show "distinct (preorder_enumerate p i (y # rest))" by simp
  qed
qed








lemma events_terminal: "on_data x \<Longrightarrow> events x = [(x, True)]"
  by (simp add: on_data_def events.simps(1) [of x])




lemma traced_apply:
  "h c e s = (r, s') \<Longrightarrow> traced h c e (tr, s) = (r, (tr @ [(c, e, r)], s'))"
  by (simp add: traced_def)

lemma pruned_cong:
  "(\<forall>x\<in>set (preorder c). P x = Q x) \<longrightarrow> pruned_events P c = pruned_events Q c"
  "(\<forall>x\<in>set (preorder_items pa kvs). P x = Q x) \<longrightarrow> pruned_events_items P pa kvs = pruned_events_items Q pa kvs"
  "(\<forall>x\<in>set (preorder_enumerate pa i xs). P x = Q x) \<longrightarrow>
     pruned_events_enumerate P pa i xs = pruned_events_enumerate Q pa i xs"
proof (induction c and pa kvs and pa i xs rule: preorder_preorder_items_preorder_enumerate.induct)
  case (1 c)
  then show ?case
    by (cases "on_dict c"; cases "on_list c")
      (simp_all add: preorder.simps(1) [of c] pruned_events.simps(1) [of _ c])
qed simp_all


lemma calls_of_append: "calls_of (xs @ ys) = calls_of xs @ calls_of ys"
  by (simp add: calls_of_def)

lemma calls_of_Cons: "calls_of ((x, e, r) # xs) = (x, e) # calls_of xs"
  by (simp add: calls_of_def)

lemma calls_of_Nil: "calls_of [] = []"
  by (simp add: calls_of_def)

lemma answered_False_outside:
  "\<forall>en\<in>set ys. fst en \<noteq> x \<Longrightarrow> answered_False (xs @ ys) x = answered_False xs x"
  "\<forall>en\<in>set xs. fst en \<noteq> x \<Longrightarrow> answered_False (xs @ ys) x = answered_False ys x"
  by (auto simp: answered_False_def)

lemma run_matches_seq:
  assumes first: "run_matches (Inr ()) L1 scope1 E1"
    and second: "run_matches res L2 scope2 E2"
    and disj: "set scope1 \<inter> set scope2 = {}"
    and c1: "\<And>P Q. (\<forall>x\<in>set scope1. P x = Q x) \<Longrightarrow> E1 P = E1 Q"
    and c2: "\<And>P Q. (\<forall>x\<in>set scope2. P x = Q x) \<Longrightarrow> E2 P = E2 Q"
  shows "run_matches res (L1 @ L2) (scope1 @ scope2) (\<lambda>P. E1 P @ E2 P)"
proof -
  from first have in1: "\<forall>en\<in>set L1. fst en \<in> set scope1"
    and e1: "E1 (answered_False L1) = calls_of L1"
    by (auto simp: run_matches_def)
  from second have in2: "\<forall>en\<in>set L2. fst en \<in> set scope2" by (simp add: run_matches_def)
  from second obtain rest where e2: "E2 (answered_False L2) = calls_of L2 @ rest"
    and fin: "res = Inr () \<longrightarrow> rest = []"
    by (auto simp: run_matches_def)
  from second have ok2: "(\<forall>en\<in>set L2. \<not> raised en) \<longrightarrow> res = Inr ()" by (simp add: run_matches_def)
  have "\<forall>x\<in>set scope1. answered_False (L1 @ L2) x = answered_False L1 x"
    using in2 disj by (auto intro!: answered_False_outside(1))
  then have a: "E1 (answered_False (L1 @ L2)) = E1 (answered_False L1)" by (rule c1)
  have "\<forall>x\<in>set scope2. answered_False (L1 @ L2) x = answered_False L2 x"
    using in1 disj by (auto intro!: answered_False_outside(2))
  then have b: "E2 (answered_False (L1 @ L2)) = E2 (answered_False L2)" by (rule c2)
  have "E1 (answered_False (L1 @ L2)) @ E2 (answered_False (L1 @ L2)) = calls_of (L1 @ L2) @ rest"
    using a b e1 e2 by (simp add: calls_of_append)
  with in1 in2 fin ok2 show ?thesis by (auto simp: run_matches_def)
qed

lemma run_matches_abort:
  assumes "run_matches (Inl e) L1 scope1 E1"
  shows "run_matches (Inl e) L1 (scope1 @ scope2) (\<lambda>P. E1 P @ E2 P)"
  using assms by (auto simp: run_matches_def)

lemma preorder_self: "c \<in> set (preorder c)"
  by (simp add: preorder.simps(1) [of c])

lemma run_matches_raise_enter:
  "run_matches (Inl e) [(c, True, Inl e)] (preorder c) (\<lambda>P. pruned_events P c)"
  by (simp add: run_matches_def preorder_self pruned_events.simps(1) [of _ c] calls_of_def raised_def)

lemma run_matches_pruned:
  "run_matches (Inr ()) [(c, True, Inr (PBool False))] (preorder c) (\<lambda>P. pruned_events P c)"
  by (simp add: run_matches_def preorder_self pruned_events.simps(1) [of _ c] calls_of_def
      answered_False_def)

lemma run_matches_terminal:
  "v \<noteq> PBool False \<Longrightarrow> \<not> on_dict c \<Longrightarrow> \<not> on_list c \<Longrightarrow>
     run_matches (Inr ()) [(c, True, Inr v)] (preorder c) (\<lambda>P. pruned_events P c)"
  by (simp add: run_matches_def preorder_self pruned_events.simps(1) [of _ c] calls_of_def
      answered_False_def)

lemma run_matches_container_abort:
  assumes v: "v \<noteq> PBool False"
    and below: "run_matches (Inl e) L2 scope E"
    and fresh: "c \<notin> set scope"
    and cong: "\<And>P Q. (\<forall>x\<in>set scope. P x = Q x) \<Longrightarrow> E P = E Q"
    and pre: "preorder c = c # scope"
    and ev: "\<And>P. \<not> P c \<Longrightarrow> pruned_events P c = (c, True) # E P @ [(c, False)]"
  shows "run_matches (Inl e) ((c, True, Inr v) # L2) (preorder c) (\<lambda>P. pruned_events P c)"
proof -
  let ?L = "(c, True, Inr v) # L2"
  from below have in2: "\<forall>en\<in>set L2. fst en \<in> set scope" by (simp add: run_matches_def)
  from below obtain rest where e2: "E (answered_False L2) = calls_of L2 @ rest"
    by (auto simp: run_matches_def)
  from below have ok2: "(\<forall>en\<in>set L2. \<not> raised en) \<longrightarrow> (Inl e :: 'a + unit) = Inr ()"
    by (simp add: run_matches_def)
  have notc: "\<not> answered_False ?L c"
    using v in2 fresh by (auto simp: answered_False_def)
  have "\<forall>x\<in>set scope. answered_False ?L x = answered_False L2 x"
    using fresh by (auto simp: answered_False_def)
  then have "E (answered_False ?L) = E (answered_False L2)" by (rule cong)
  with ev [of "answered_False ?L", OF notc] e2
  have "pruned_events (answered_False ?L) c = calls_of ?L @ (rest @ [(c, False)])"
    by (simp add: calls_of_Cons)
  with in2 ok2 pre show ?thesis by (auto simp: run_matches_def)
qed

lemma run_matches_container_done:
  assumes v: "v \<noteq> PBool False"
    and below: "run_matches (Inr ()) L2 scope E"
    and fresh: "c \<notin> set scope"
    and cong: "\<And>P Q. (\<forall>x\<in>set scope. P x = Q x) \<Longrightarrow> E P = E Q"
    and pre: "preorder c = c # scope"
    and ev: "\<And>P. \<not> P c \<Longrightarrow> pruned_events P c = (c, True) # E P @ [(c, False)]"
  shows "run_matches (case r3 of Inl e \<Rightarrow> Inl e | Inr w \<Rightarrow> Inr ())
           ((c, True, Inr v) # L2 @ [(c, False, r3)]) (preorder c) (\<lambda>P. pruned_events P c)"
proof -
  let ?L = "(c, True, Inr v) # L2 @ [(c, False, r3)]"
  from below have in2: "\<forall>en\<in>set L2. fst en \<in> set scope"
    and e2: "E (answered_False L2) = calls_of L2"
    by (auto simp: run_matches_def)
  have notc: "\<not> answered_False ?L c"
    using v in2 fresh by (auto simp: answered_False_def)
  have "\<forall>x\<in>set scope. answered_False ?L x = answered_False L2 x"
    using fresh by (auto simp: answered_False_def)
  then have "E (answered_False ?L) = E (answered_False L2)" by (rule cong)
  with ev [of "answered_False ?L", OF notc] e2
  have "pruned_events (answered_False ?L) c = calls_of ?L @ []"
    by (simp add: calls_of_Cons calls_of_append calls_of_Nil)
  moreover have "(\<forall>en\<in>set ?L. \<not> raised en) \<longrightarrow> (case r3 of Inl e \<Rightarrow> Inl e | Inr w \<Rightarrow> Inr ()) = Inr ()"
    by (cases r3) (simp_all add: raised_def)
  ultimately show ?thesis using in2 pre
    unfolding run_matches_def by (intro conjI) (auto simp del: append_Nil2)
qed

lemma visit_log:
  "wf_node (node c) \<longrightarrow>
     (\<forall>tr s. \<exists>L res s'. recursive_visit (traced h) c (tr, s) = (res, (tr @ L, s'))
        \<and> run_matches res L (preorder c) (\<lambda>P. pruned_events P c))"
  "distinct (map fst kvs) \<and> wf_items kvs \<longrightarrow>
     (\<forall>tr s. \<exists>L res s'. visit_items (traced h) pa kvs (tr, s) = (res, (tr @ L, s'))
        \<and> run_matches res L (preorder_items pa kvs) (\<lambda>P. pruned_events_items P pa kvs))"
  "wf_elements xs \<longrightarrow>
     (\<forall>tr s. \<exists>L res s'. visit_enumerate (traced h) pa i xs (tr, s) = (res, (tr @ L, s'))
        \<and> run_matches res L (preorder_enumerate pa i xs) (\<lambda>P. pruned_events_enumerate P pa i xs))"
proof (induction c and pa kvs and pa i xs rule: preorder_preorder_items_preorder_enumerate.induct)
  case (1 c)
  show ?case
  proof (intro impI allI)
    fix tr s
    assume wf: "wf_node (node c)"
    from wf distinct_preorder(1) [of c] have dist: "distinct (preorder c)" by blast
    obtain r s1 where enter: "h c True s = (r, s1)" by (cases "h c True s")
    then have tenter: "traced h c True (tr, s) = (r, (tr @ [(c, True, r)], s1))" by (rule traced_apply)
    show "\<exists>L res s'. recursive_visit (traced h) c (tr, s) = (res, (tr @ L, s'))
        \<and> run_matches res L (preorder c) (\<lambda>P. pruned_events P c)"
    proof (cases r)
      case (Inl e)
      with tenter have "recursive_visit (traced h) c (tr, s) = (Inl e, (tr @ [(c, True, Inl e)], s1))"
        by (simp add: recursive_visit.simps(1) [of "traced h" c])
      with run_matches_raise_enter [of e c] show ?thesis by blast
    next
      case (Inr v)
      show ?thesis
      proof (cases "v = PBool False")
        case True
        with Inr tenter
        have "recursive_visit (traced h) c (tr, s) = (Inr (), (tr @ [(c, True, Inr (PBool False))], s1))"
          by (simp add: recursive_visit.simps(1) [of "traced h" c])
        with run_matches_pruned [of c] show ?thesis by blast
      next
        case False
        show ?thesis
        proof (cases "on_dict c")
          case True
          let ?scope = "preorder_items (path c) (items (node c))"
          let ?E = "\<lambda>P. pruned_events_items P (path c) (items (node c))"
          from True have pre: "preorder c = c # ?scope" by (simp add: preorder.simps(1) [of c])
          with dist have fresh: "c \<notin> set ?scope" by simp
          have cong: "\<And>P Q. (\<forall>x\<in>set ?scope. P x = Q x) \<Longrightarrow> ?E P = ?E Q"
            using pruned_cong(2) by blast
          from True have ev: "\<And>P. \<not> P c \<Longrightarrow> pruned_events P c = (c, True) # ?E P @ [(c, False)]"
            by (simp add: pruned_events.simps(1) [of _ c])
          from wf_on_dict [OF True wf] "1.IH"(1) [OF True] obtain L2 res2 s2 where
            below: "visit_items (traced h) (path c) (items (node c)) (tr @ [(c, True, r)], s1)
               = (res2, ((tr @ [(c, True, r)]) @ L2, s2))"
            and m2: "run_matches res2 L2 ?scope ?E"
            by blast
          show ?thesis
          proof (cases res2)
            case (Inl e)
            with True False Inr tenter below
            have "recursive_visit (traced h) c (tr, s) = (Inl e, (tr @ (c, True, Inr v) # L2, s2))"
              by (simp add: recursive_visit.simps(1) [of "traced h" c] on_dict_def)
            moreover from m2 Inl have "run_matches (Inl e) L2 ?scope ?E" by simp
            from run_matches_container_abort [OF False this fresh cong pre ev]
            have "run_matches (Inl e) ((c, True, Inr v) # L2) (preorder c) (\<lambda>P. pruned_events P c)" .
            ultimately show ?thesis by blast
          next
            case done2: (Inr u)
            obtain r3 s3 where exit: "h c False s2 = (r3, s3)" by (cases "h c False s2")
            then have texit: "traced h c False ((tr @ [(c, True, r)]) @ L2, s2)
                = (r3, (((tr @ [(c, True, r)]) @ L2) @ [(c, False, r3)], s3))"
              by (rule traced_apply)
            with True False Inr tenter below done2
            have "recursive_visit (traced h) c (tr, s)
                = ((case r3 of Inl e \<Rightarrow> Inl e | Inr w \<Rightarrow> Inr ()),
                   (tr @ (c, True, Inr v) # L2 @ [(c, False, r3)], s3))"
              by (cases r3) (simp_all add: recursive_visit.simps(1) [of "traced h" c] on_dict_def)
            moreover from m2 done2 have "run_matches (Inr ()) L2 ?scope ?E" by simp
            from run_matches_container_done [OF False this fresh cong pre ev, of r3]
            have "run_matches (case r3 of Inl e \<Rightarrow> Inl e | Inr w \<Rightarrow> Inr ())
                ((c, True, Inr v) # L2 @ [(c, False, r3)]) (preorder c) (\<lambda>P. pruned_events P c)" .
            ultimately show ?thesis by blast
          qed
        next
          case nodict: False
          show ?thesis
          proof (cases "on_list c")
            case True
            let ?scope = "preorder_enumerate (path c) 0 (elements (node c))"
            let ?E = "\<lambda>P. pruned_events_enumerate P (path c) 0 (elements (node c))"
            from True nodict have pre: "preorder c = c # ?scope" by (simp add: preorder.simps(1) [of c])
            with dist have fresh: "c \<notin> set ?scope" by simp
            have cong: "\<And>P Q. (\<forall>x\<in>set ?scope. P x = Q x) \<Longrightarrow> ?E P = ?E Q"
              using pruned_cong(3) by blast
            from True nodict
            have ev: "\<And>P. \<not> P c \<Longrightarrow> pruned_events P c = (c, True) # ?E P @ [(c, False)]"
              by (simp add: pruned_events.simps(1) [of _ c])
            from wf_on_list [OF True wf] "1.IH"(2) [OF nodict True] obtain L2 res2 s2 where
              below: "visit_enumerate (traced h) (path c) 0 (elements (node c)) (tr @ [(c, True, r)], s1)
                 = (res2, ((tr @ [(c, True, r)]) @ L2, s2))"
              and m2: "run_matches res2 L2 ?scope ?E"
              by blast
            show ?thesis
            proof (cases res2)
              case (Inl e)
              with True nodict False Inr tenter below
              have "recursive_visit (traced h) c (tr, s) = (Inl e, (tr @ (c, True, Inr v) # L2, s2))"
                by (simp add: recursive_visit.simps(1) [of "traced h" c] on_dict_def on_list_def Let_def)
              moreover from m2 Inl have "run_matches (Inl e) L2 ?scope ?E" by simp
              from run_matches_container_abort [OF False this fresh cong pre ev]
              have "run_matches (Inl e) ((c, True, Inr v) # L2) (preorder c) (\<lambda>P. pruned_events P c)" .
              ultimately show ?thesis by blast
            next
              case done2: (Inr u)
              obtain r3 s3 where exit: "h c False s2 = (r3, s3)" by (cases "h c False s2")
              then have texit: "traced h c False ((tr @ [(c, True, r)]) @ L2, s2)
                  = (r3, (((tr @ [(c, True, r)]) @ L2) @ [(c, False, r3)], s3))"
                by (rule traced_apply)
              with True nodict False Inr tenter below done2
              have "recursive_visit (traced h) c (tr, s)
                  = ((case r3 of Inl e \<Rightarrow> Inl e | Inr w \<Rightarrow> Inr ()),
                     (tr @ (c, True, Inr v) # L2 @ [(c, False, r3)], s3))"
                by (cases r3)
                  (simp_all add: recursive_visit.simps(1) [of "traced h" c] on_dict_def on_list_def Let_def)
              moreover from m2 done2 have "run_matches (Inr ()) L2 ?scope ?E" by simp
              from run_matches_container_done [OF False this fresh cong pre ev, of r3]
              have "run_matches (case r3 of Inl e \<Rightarrow> Inl e | Inr w \<Rightarrow> Inr ())
                  ((c, True, Inr v) # L2 @ [(c, False, r3)]) (preorder c) (\<lambda>P. pruned_events P c)" .
              ultimately show ?thesis by blast
            qed
          next
            case nolist: False
            with nodict False Inr tenter
            have "recursive_visit (traced h) c (tr, s) = (Inr (), (tr @ [(c, True, Inr v)], s1))"
              by (auto simp: recursive_visit.simps(1) [of "traced h" c] on_dict_def on_list_def Let_def)
            with run_matches_terminal [OF False nodict nolist] show ?thesis by blast
          qed
        qed
      qed
    qed
  qed
next
  case (2 p)
  show ?case
  proof (intro impI allI)
    fix tr :: "'a entry list" and s :: 'b
    have "visit_items (traced h) p [] (tr, s) = (Inr (), (tr @ [], s))" by simp
    moreover have "run_matches (Inr () :: 'a + unit) [] (preorder_items p []) (\<lambda>P. pruned_events_items P p [])"
      by (simp add: run_matches_def calls_of_def)
    ultimately show "\<exists>L res s'. visit_items (traced h) p [] (tr, s) = (res, (tr @ L, s'))
        \<and> run_matches res L (preorder_items p []) (\<lambda>P. pruned_events_items P p [])"
      by blast
  qed
next
  case (3 p kv rest)
  show ?case
  proof (intro impI allI)
    fix tr s
    assume wf: "distinct (map fst (kv # rest)) \<and> wf_items (kv # rest)"
    let ?child = "JsonCursor (snd kv) (p @ [Key (fst kv)])"
    from wf distinct_preorder(2) [of "kv # rest" p]
    have disj: "set (preorder ?child) \<inter> set (preorder_items p rest) = {}" by simp
    have c1: "\<And>P Q. (\<forall>x\<in>set (preorder ?child). P x = Q x) \<Longrightarrow> pruned_events P ?child = pruned_events Q ?child"
      using pruned_cong(1) by blast
    have c2: "\<And>P Q. (\<forall>x\<in>set (preorder_items p rest). P x = Q x)
        \<Longrightarrow> pruned_events_items P p rest = pruned_events_items Q p rest"
      using pruned_cong(2) by blast
    from wf "3.IH"(1) obtain L1 res1 s1 where
      first: "recursive_visit (traced h) ?child (tr, s) = (res1, (tr @ L1, s1))"
      and m1: "run_matches res1 L1 (preorder ?child) (\<lambda>P. pruned_events P ?child)"
      by fastforce
    show "\<exists>L res s'. visit_items (traced h) p (kv # rest) (tr, s) = (res, (tr @ L, s'))
        \<and> run_matches res L (preorder_items p (kv # rest)) (\<lambda>P. pruned_events_items P p (kv # rest))"
    proof (cases res1)
      case (Inl e)
      with first have "visit_items (traced h) p (kv # rest) (tr, s) = (Inl e, (tr @ L1, s1))"
        by (cases kv) simp
      moreover from m1 Inl
      have "run_matches (Inl e) L1 (preorder ?child) (\<lambda>P. pruned_events P ?child)" by simp
      from run_matches_abort [OF this, of "preorder_items p rest" "\<lambda>P. pruned_events_items P p rest"]
      have "run_matches (Inl e) L1 (preorder_items p (kv # rest)) (\<lambda>P. pruned_events_items P p (kv # rest))"
        by simp
      ultimately show ?thesis by blast
    next
      case (Inr u)
      from wf "3.IH"(2) obtain L2 res2 s2 where
        second: "visit_items (traced h) p rest (tr @ L1, s1) = (res2, ((tr @ L1) @ L2, s2))"
        and m2: "run_matches res2 L2 (preorder_items p rest) (\<lambda>P. pruned_events_items P p rest)"
        by fastforce
      from first Inr second
      have "visit_items (traced h) p (kv # rest) (tr, s) = (res2, (tr @ L1 @ L2, s2))"
        by (cases kv) simp
      moreover from m1 Inr
      have "run_matches (Inr ()) L1 (preorder ?child) (\<lambda>P. pruned_events P ?child)" by simp
      from run_matches_seq [OF this m2 disj c1 c2]
      have "run_matches res2 (L1 @ L2) (preorder_items p (kv # rest))
          (\<lambda>P. pruned_events_items P p (kv # rest))"
        by simp
      ultimately show ?thesis by blast
    qed
  qed
next
  case (4 p i)
  show ?case
  proof (intro impI allI)
    fix tr :: "'a entry list" and s :: 'b
    have "visit_enumerate (traced h) p i [] (tr, s) = (Inr (), (tr @ [], s))" by simp
    moreover have "run_matches (Inr () :: 'a + unit) [] (preorder_enumerate p i [])
        (\<lambda>P. pruned_events_enumerate P p i [])"
      by (simp add: run_matches_def calls_of_def)
    ultimately show "\<exists>L res s'. visit_enumerate (traced h) p i [] (tr, s) = (res, (tr @ L, s'))
        \<and> run_matches res L (preorder_enumerate p i []) (\<lambda>P. pruned_events_enumerate P p i [])"
      by blast
  qed
next
  case (5 p i x rest)
  show ?case
  proof (intro impI allI)
    fix tr s
    assume wf: "wf_elements (x # rest)"
    let ?child = "JsonCursor x (p @ [Idx i])"
    from wf distinct_preorder(3) [of "x # rest" p i]
    have disj: "set (preorder ?child) \<inter> set (preorder_enumerate p (i + 1) rest) = {}" by simp
    have c1: "\<And>P Q. (\<forall>x\<in>set (preorder ?child). P x = Q x) \<Longrightarrow> pruned_events P ?child = pruned_events Q ?child"
      using pruned_cong(1) by blast
    have c2: "\<And>P Q. (\<forall>x\<in>set (preorder_enumerate p (i + 1) rest). P x = Q x)
        \<Longrightarrow> pruned_events_enumerate P p (i + 1) rest = pruned_events_enumerate Q p (i + 1) rest"
      using pruned_cong(3) by blast
    from wf "5.IH"(1) obtain L1 res1 s1 where
      first: "recursive_visit (traced h) ?child (tr, s) = (res1, (tr @ L1, s1))"
      and m1: "run_matches res1 L1 (preorder ?child) (\<lambda>P. pruned_events P ?child)"
      by fastforce
    show "\<exists>L res s'. visit_enumerate (traced h) p i (x # rest) (tr, s) = (res, (tr @ L, s'))
        \<and> run_matches res L (preorder_enumerate p i (x # rest)) (\<lambda>P. pruned_events_enumerate P p i (x # rest))"
    proof (cases res1)
      case (Inl e)
      with first have "visit_enumerate (traced h) p i (x # rest) (tr, s) = (Inl e, (tr @ L1, s1))"
        by simp
      moreover from m1 Inl
      have "run_matches (Inl e) L1 (preorder ?child) (\<lambda>P. pruned_events P ?child)" by simp
      from run_matches_abort [OF this, of "preorder_enumerate p (i + 1) rest"
          "\<lambda>P. pruned_events_enumerate P p (i + 1) rest"]
      have "run_matches (Inl e) L1 (preorder_enumerate p i (x # rest))
          (\<lambda>P. pruned_events_enumerate P p i (x # rest))"
        by simp
      ultimately show ?thesis by blast
    next
      case (Inr u)
      from wf "5.IH"(2) obtain L2 res2 s2 where
        second: "visit_enumerate (traced h) p (i + 1) rest (tr @ L1, s1) = (res2, ((tr @ L1) @ L2, s2))"
        and m2: "run_matches res2 L2 (preorder_enumerate p (i + 1) rest)
            (\<lambda>P. pruned_events_enumerate P p (i + 1) rest)"
        by fastforce
      from first Inr second
      have "visit_enumerate (traced h) p i (x # rest) (tr, s) = (res2, (tr @ L1 @ L2, s2))"
        by simp
      moreover from m1 Inr
      have "run_matches (Inr ()) L1 (preorder ?child) (\<lambda>P. pruned_events P ?child)" by simp
      from run_matches_seq [OF this m2 disj c1 c2]
      have "run_matches res2 (L1 @ L2) (preorder_enumerate p i (x # rest))
          (\<lambda>P. pruned_events_enumerate P p i (x # rest))"
        by simp
      ultimately show ?thesis by blast
    qed
  qed
qed


lemma run_log_matches:
  assumes "wf_node (node c)"
  shows "\<exists>res s'. recursive_visit (traced h) c ([], s) = (res, (run_log h c s, s'))
    \<and> run_matches res (run_log h c s) (preorder c) (\<lambda>P. pruned_events P c)"
proof -
  from visit_log(1) [of c h] assms obtain L res s' where
    run: "recursive_visit (traced h) c ([], s) = (res, ([] @ L, s'))"
    and m: "run_matches res L (preorder c) (\<lambda>P. pruned_events P c)"
    by blast
  from run have "run_log h c s = L" by (simp add: run_log_def JsonCursor_visit_def)
  with run m show ?thesis by simp
qed




lemma calls_in_subtree:
  assumes "wf_node (node c)"
  shows "\<forall>e\<in>set (calls h c s). fst e \<in> set (preorder c)"
  using run_log_matches [OF assms, of h s] by (auto simp: run_matches_def calls_def calls_of_def)









section \<open>Replaying the path of a cursor\<close>

lemma renavigate_append:
  "renavigate c (p @ q) = (case renavigate c p of Inl e \<Rightarrow> Inl e | Inr c' \<Rightarrow> renavigate c' q)"
proof (induction p arbitrary: c)
  case Nil
  then show ?case by simp
next
  case (Cons s p)
  then show ?case by (cases s) (simp_all split: sum.split)
qed

lemma wf_items_member: "wf_items kvs \<Longrightarrow> (k, v) \<in> set kvs \<Longrightarrow> wf_node v"
  by (induction kvs) auto

lemma plain_items_member: "plain_items kvs \<Longrightarrow> (k, v) \<in> set kvs \<Longrightarrow> plain_json v"
  by (induction kvs) auto

lemma wf_elements_nth: "wf_elements xs \<Longrightarrow> n < length xs \<Longrightarrow> wf_node (xs ! n)"
  by (induction xs arbitrary: n) (auto simp: nth_Cons split: nat.split)

lemma plain_elements_nth: "plain_elements xs \<Longrightarrow> n < length xs \<Longrightarrow> plain_json (xs ! n)"
  by (induction xs arbitrary: n) (auto simp: nth_Cons split: nat.split)

lemma plain_on_dict:
  "on_dict c \<Longrightarrow> plain_json (node c) \<Longrightarrow> isinstance_dict (node c) \<and> plain_items (items (node c))"
  by (cases "node c") (simp_all add: on_dict_def)

lemma plain_on_list:
  "on_list c \<Longrightarrow> plain_json (node c) \<Longrightarrow> isinstance_list (node c) \<and> plain_elements (elements (node c))"
  by (cases "node c") (simp_all add: on_list_def Let_def)

lemma getattr_child:
  "isinstance_dict (node c) \<Longrightarrow> distinct (map fst (items (node c))) \<Longrightarrow> (k, v) \<in> set (items (node c))
     \<Longrightarrow> JsonCursor_getattr c k = Inr (JsonCursor v (path c @ [Key k]))"
  by (simp add: JsonCursor_getattr_def)

lemma getitem_child:
  "isinstance_list (node c) \<Longrightarrow> 0 \<le> j \<Longrightarrow> j < int (length (elements (node c)))
     \<Longrightarrow> JsonCursor_getitem c j = Inr (JsonCursor (elements (node c) ! nat j) (path c @ [Idx j]))"
  by (simp add: JsonCursor_getitem_def)

lemma subtree_replay:
  "wf_node (node c) \<and> plain_json (node c) \<longrightarrow>
     (\<forall>x\<in>set (preorder c). \<exists>q. path x = path c @ q \<and> renavigate c q = Inr x
         \<and> wf_node (node x) \<and> plain_json (node x))"
  "distinct (map fst kvs) \<and> wf_items kvs \<and> plain_items kvs \<longrightarrow>
     (\<forall>x\<in>set (preorder_items pa kvs). \<exists>k v q. (k, v) \<in> set kvs \<and> path x = pa @ Key k # q
         \<and> renavigate (JsonCursor v (pa @ [Key k])) q = Inr x
         \<and> wf_node (node x) \<and> plain_json (node x))"
  "wf_elements xs \<and> plain_elements xs \<longrightarrow>
     (\<forall>x\<in>set (preorder_enumerate pa i xs). \<exists>j q. i \<le> j \<and> j < i + int (length xs)
         \<and> path x = pa @ Idx j # q
         \<and> renavigate (JsonCursor (xs ! nat (j - i)) (pa @ [Idx j])) q = Inr x
         \<and> wf_node (node x) \<and> plain_json (node x))"
proof (induction c and pa kvs and pa i xs rule: preorder_preorder_items_preorder_enumerate.induct)
  case (1 c)
  show ?case
  proof (intro impI ballI)
    fix x
    assume ok: "wf_node (node c) \<and> plain_json (node c)" and "x \<in> set (preorder c)"
    then consider "x = c" | "on_dict c" "x \<in> set (preorder_items (path c) (items (node c)))"
      | "\<not> on_dict c" "on_list c" "x \<in> set (preorder_enumerate (path c) 0 (elements (node c)))"
      by (auto simp: preorder.simps(1) [of c] split: if_splits)
    then show "\<exists>q. path x = path c @ q \<and> renavigate c q = Inr x \<and> wf_node (node x) \<and> plain_json (node x)"
    proof cases
      case 1
      with ok have "path x = path c @ [] \<and> renavigate c [] = Inr x \<and> wf_node (node x) \<and> plain_json (node x)"
        by simp
      then show ?thesis by blast
    next
      case 2
      from wf_on_dict [OF 2(1)] ok have wf: "distinct (map fst (items (node c)))" "wf_items (items (node c))"
        by simp_all
      from plain_on_dict [OF 2(1)] ok have pl: "isinstance_dict (node c)" "plain_items (items (node c))"
        by simp_all
      from "1.IH"(1) [OF 2(1)] wf pl 2(2) obtain k v q where
        kv: "(k, v) \<in> set (items (node c))" and px: "path x = path c @ Key k # q"
        and rn: "renavigate (JsonCursor v (path c @ [Key k])) q = Inr x"
        and okx: "wf_node (node x) \<and> plain_json (node x)"
        by blast
      from getattr_child [OF pl(1) wf(1) kv] rn have "renavigate c (Key k # q) = Inr x" by simp
      with px okx show ?thesis by blast
    next
      case 3
      from wf_on_list [OF 3(2)] ok have wf: "wf_elements (elements (node c))" by simp
      from plain_on_list [OF 3(2)] ok have pl: "isinstance_list (node c)" "plain_elements (elements (node c))"
        by simp_all
      from "1.IH"(2) [OF 3(1) 3(2)] wf pl 3(3) obtain j q where
        j: "0 \<le> j" "j < 0 + int (length (elements (node c)))" and px: "path x = path c @ Idx j # q"
        and rn: "renavigate (JsonCursor (elements (node c) ! nat (j - 0)) (path c @ [Idx j])) q = Inr x"
        and okx: "wf_node (node x) \<and> plain_json (node x)"
        by blast
      from j have "JsonCursor_getitem c j = Inr (JsonCursor (elements (node c) ! nat j) (path c @ [Idx j]))"
        using getitem_child [OF pl(1), of j] by simp
      with rn have "renavigate c (Idx j # q) = Inr x" by simp
      with px okx show ?thesis by blast
    qed
  qed
next
  case (2 p)
  then show ?case by simp
next
  case (3 p kv rest)
  show ?case
  proof (intro impI ballI)
    fix x
    assume ok: "distinct (map fst (kv # rest)) \<and> wf_items (kv # rest) \<and> plain_items (kv # rest)"
      and "x \<in> set (preorder_items p (kv # rest))"
    then consider "x \<in> set (preorder (JsonCursor (snd kv) (p @ [Key (fst kv)])))"
      | "x \<in> set (preorder_items p rest)"
      by auto
    then show "\<exists>k v q. (k, v) \<in> set (kv # rest) \<and> path x = p @ Key k # q
         \<and> renavigate (JsonCursor v (p @ [Key k])) q = Inr x
         \<and> wf_node (node x) \<and> plain_json (node x)"
    proof cases
      case 1
      from ok have "wf_node (snd kv) \<and> plain_json (snd kv)" by simp
      with "3.IH"(1) 1 obtain q where
        "path x = (p @ [Key (fst kv)]) @ q" "renavigate (JsonCursor (snd kv) (p @ [Key (fst kv)])) q = Inr x"
        "wf_node (node x) \<and> plain_json (node x)"
        by fastforce
      then have "(fst kv, snd kv) \<in> set (kv # rest) \<and> path x = p @ Key (fst kv) # q
         \<and> renavigate (JsonCursor (snd kv) (p @ [Key (fst kv)])) q = Inr x
         \<and> wf_node (node x) \<and> plain_json (node x)"
        by simp
      then show ?thesis by blast
    next
      case 2
      from ok have "distinct (map fst rest) \<and> wf_items rest \<and> plain_items rest" by simp
      with "3.IH"(2) 2 obtain k v q where
        "(k, v) \<in> set rest" "path x = p @ Key k # q"
        "renavigate (JsonCursor v (p @ [Key k])) q = Inr x"
        "wf_node (node x) \<and> plain_json (node x)"
        by blast
      then have "(k, v) \<in> set (kv # rest) \<and> path x = p @ Key k # q
         \<and> renavigate (JsonCursor v (p @ [Key k])) q = Inr x
         \<and> wf_node (node x) \<and> plain_json (node x)"
        by simp
      then show ?thesis by blast
    qed
  qed
next
  case (4 p i)
  then show ?case by simp
next
  case (5 p i y rest)
  show ?case
  proof (intro impI ballI)
    fix x
    assume ok: "wf_elements (y # rest) \<and> plain_elements (y # rest)"
      and "x \<in> set (preorder_enumerate p i (y # rest))"
    then consider "x \<in> set (preorder (JsonCursor y (p @ [Idx i])))"
      | "x \<in> set (preorder_enumerate p (i + 1) rest)"
      by auto
    then show "\<exists>j q. i \<le> j \<and> j < i + int (length (y # rest)) \<and> path x = p @ Idx j # q
         \<and> renavigate (JsonCursor ((y # rest) ! nat (j - i)) (p @ [Idx j])) q = Inr x
         \<and> wf_node (node x) \<and> plain_json (node x)"
    proof cases
      case 1
      from ok have "wf_node y \<and> plain_json y" by simp
      with "5.IH"(1) 1 obtain q where
        "path x = (p @ [Idx i]) @ q" "renavigate (JsonCursor y (p @ [Idx i])) q = Inr x"
        "wf_node (node x) \<and> plain_json (node x)"
        by fastforce
      then have "i \<le> i \<and> i < i + int (length (y # rest)) \<and> path x = p @ Idx i # q
         \<and> renavigate (JsonCursor ((y # rest) ! nat (i - i)) (p @ [Idx i])) q = Inr x
         \<and> wf_node (node x) \<and> plain_json (node x)"
        by simp
      then show ?thesis by blast
    next
      case 2
      from ok have "wf_elements rest \<and> plain_elements rest" by simp
      with "5.IH"(2) 2 obtain j q where
        j: "i + 1 \<le> j" "j < i + 1 + int (length rest)" and px: "path x = p @ Idx j # q"
        and rn: "renavigate (JsonCursor (rest ! nat (j - (i + 1))) (p @ [Idx j])) q = Inr x"
        and okx: "wf_node (node x) \<and> plain_json (node x)"
        by blast
      from j have "nat (j - i) = Suc (nat (j - (i + 1)))" by simp
      then have "(y # rest) ! nat (j - i) = rest ! nat (j - (i + 1))" by simp
      with j px rn okx have "i \<le> j \<and> j < i + int (length (y # rest)) \<and> path x = p @ Idx j # q
         \<and> renavigate (JsonCursor ((y # rest) ! nat (j - i)) (p @ [Idx j])) q = Inr x
         \<and> wf_node (node x) \<and> plain_json (node x)"
        by simp
      then show ?thesis by blast
    qed
  qed
qed

lemma search_result_in_subtree:
  "JsonCursor_search c predicate = Inr (Some r) \<Longrightarrow> r \<in> set (preorder c)"
proof -
  assume "JsonCursor_search c predicate = Inr (Some r)"
  then have "first_match predicate (preorder c) = Inr (Some r)"
    by (simp add: JsonCursor_search_def search_first_match(1))
  from first_match_Some [OF this] show ?thesis by auto
qed

lemma reachable_invariant:
  assumes "wf_node tree" and "plain_json tree" and "reachable tree c"
  shows "renavigate (JsonCursor_init tree None) (path c) = Inr c
    \<and> wf_node (node c) \<and> plain_json (node c)"
  using assms(3)
proof (induction rule: reachable.induct)
  case root
  with assms(1,2) show ?case by (simp add: JsonCursor_init_def)
next
  case (by_key c name c')
  from by_key.hyps(2) obtain child where dict: "isinstance_dict (node c)"
    and look: "map_of (items (node c)) name = Some child"
    and c': "c' = JsonCursor child (path c @ [Key name])"
    by (auto simp: JsonCursor_getattr_def split: if_splits option.splits)
  from look have mem: "(name, child) \<in> set (items (node c))" by (rule map_of_SomeD)
  from dict have od: "on_dict c" by (cases "node c") (simp_all add: on_dict_def)
  from wf_on_dict [OF od] plain_on_dict [OF od] by_key.IH mem
  have "wf_node child" "plain_json child"
    by (auto intro: wf_items_member plain_items_member)
  moreover have "renavigate (JsonCursor_init tree None) (path c') = Inr c'"
    using by_key.IH by_key.hyps(2) c' by (simp add: renavigate_append)
  ultimately show ?case using c' by simp
next
  case (by_index c index c')
  from by_index.hyps(2) have lst: "isinstance_list (node c)"
    and range: "0 \<le> index" "index < int (length (elements (node c)))"
    and c': "c' = JsonCursor (elements (node c) ! nat index) (path c @ [Idx index])"
    by (auto simp: JsonCursor_getitem_def split: if_splits)
  from lst have ol: "on_list c" by (cases "node c") (simp_all add: on_list_def Let_def)
  from range have n: "nat index < length (elements (node c))" by simp
  from wf_on_list [OF ol] plain_on_list [OF ol] by_index.IH n
  have "wf_node (elements (node c) ! nat index)" "plain_json (elements (node c) ! nat index)"
    by (auto intro: wf_elements_nth plain_elements_nth)
  moreover have "renavigate (JsonCursor_init tree None) (path c') = Inr c'"
    using by_index.IH by_index.hyps(2) c' by (simp add: renavigate_append)
  ultimately show ?case using c' by simp
next
  case (by_search c predicate c')
  from by_search.hyps(2) have "c' \<in> set (preorder c)" by (rule search_result_in_subtree)
  with subtree_replay(1) [of c] by_search.IH obtain q where
    "path c' = path c @ q" "renavigate c q = Inr c'" "wf_node (node c') \<and> plain_json (node c')"
    by blast
  with by_search.IH show ?case by (simp add: renavigate_append)
qed

text \<open>
  Claim C1, as stated, covers every cursor a search returns. \<^verbatim>\<open>search\<close> descends into
  every Sequence, \<^verbatim>\<open>__getitem__\<close> only into a \<^verbatim>\<open>list\<close>: the cursor found below a tuple has a
  path whose replay from the root fails.
\<close>

theorem search_result_not_replayable:
  "reachable (PTuple [PInt 1]) (JsonCursor (PInt 1) [Idx 0])
   \<and> JsonCursor_search (JsonCursor_init (PTuple [PInt 1]) None) is_one
       = Inr (Some (JsonCursor (PInt 1) [Idx 0]))
   \<and> renavigate (JsonCursor_init (PTuple [PInt 1]) None) (path (JsonCursor (PInt 1) [Idx 0]))
       = Inl NotASequence"
proof -
  have s: "JsonCursor_search (JsonCursor_init (PTuple [PInt 1]) None) is_one
       = Inr (Some (JsonCursor (PInt 1) [Idx 0]))"
    by (simp add: JsonCursor_search_def JsonCursor_init_def recursive_search.simps(1) is_one_def)
  have "reachable (PTuple [PInt 1]) (JsonCursor_init (PTuple [PInt 1]) None)"
    by (rule reachable.root)
  from reachable.by_search [OF this s] have "reachable (PTuple [PInt 1]) (JsonCursor (PInt 1) [Idx 0])" .
  moreover have "renavigate (JsonCursor_init (PTuple [PInt 1]) None) (path (JsonCursor (PInt 1) [Idx 0]))
       = Inl NotASequence"
    by (simp add: JsonCursor_init_def JsonCursor_getitem_def)
  ultimately show ?thesis using s by simp
qed

lemma getattr_path: "JsonCursor_getattr c name = Inr c' \<Longrightarrow> path c' = path c @ [Key name]"
  by (auto simp: JsonCursor_getattr_def split: if_splits option.splits)

lemma getitem_path: "JsonCursor_getitem c index = Inr c' \<Longrightarrow> path c' = path c @ [Idx index]"
  by (auto simp: JsonCursor_getitem_def split: if_splits)

lemma navigable_replay:
  "navigable tree c \<Longrightarrow> renavigate (JsonCursor_init tree None) (path c) = Inr c"
proof (induction rule: navigable.induct)
  case root
  then show ?case by (simp add: JsonCursor_init_def)
next
  case (by_key c name c')
  then show ?case by (simp add: getattr_path renavigate_append)
next
  case (by_index c index c')
  then show ?case by (simp add: getitem_path renavigate_append)
qed

lemma getattr_refused:
  "\<not> isinstance_dict (node c) \<Longrightarrow> renavigate c (Key k # q) = Inl TypeMismatch"
  by (simp add: JsonCursor_getattr_def)

lemma getitem_refused:
  "\<not> isinstance_list (node c) \<Longrightarrow> renavigate c (Idx j # q) = Inl NotASequence"
  by (simp add: JsonCursor_getitem_def)

lemma subtree_replay_any:
  "wf_node (node c) \<longrightarrow>
     (\<forall>x\<in>set (preorder c). \<exists>q. path x = path c @ q \<and> replayed_or_refused (renavigate c q) x
         \<and> wf_node (node x))"
  "distinct (map fst kvs) \<and> wf_items kvs \<longrightarrow>
     (\<forall>x\<in>set (preorder_items pa kvs). \<exists>k v q. (k, v) \<in> set kvs \<and> path x = pa @ Key k # q
         \<and> replayed_or_refused (renavigate (JsonCursor v (pa @ [Key k])) q) x
         \<and> wf_node (node x))"
  "wf_elements xs \<longrightarrow>
     (\<forall>x\<in>set (preorder_enumerate pa i xs). \<exists>j q. i \<le> j \<and> j < i + int (length xs)
         \<and> path x = pa @ Idx j # q
         \<and> replayed_or_refused (renavigate (JsonCursor (xs ! nat (j - i)) (pa @ [Idx j])) q) x
         \<and> wf_node (node x))"
proof (induction c and pa kvs and pa i xs rule: preorder_preorder_items_preorder_enumerate.induct)
  case (1 c)
  show ?case
  proof (intro impI ballI)
    fix x
    assume ok: "wf_node (node c)" and "x \<in> set (preorder c)"
    then consider "x = c" | "on_dict c" "x \<in> set (preorder_items (path c) (items (node c)))"
      | "\<not> on_dict c" "on_list c" "x \<in> set (preorder_enumerate (path c) 0 (elements (node c)))"
      by (auto simp: preorder.simps(1) [of c] split: if_splits)
    then show "\<exists>q. path x = path c @ q \<and> replayed_or_refused (renavigate c q) x \<and> wf_node (node x)"
    proof cases
      case 1
      with ok have "path x = path c @ [] \<and> replayed_or_refused (renavigate c []) x \<and> wf_node (node x)"
        by (simp add: replayed_or_refused_def)
      then show ?thesis by blast
    next
      case 2
      from wf_on_dict [OF 2(1)] ok have wf: "distinct (map fst (items (node c)))" "wf_items (items (node c))"
        by simp_all
      from "1.IH"(1) [OF 2(1)] wf 2(2) obtain k v q where
        kv: "(k, v) \<in> set (items (node c))" and px: "path x = path c @ Key k # q"
        and rn: "replayed_or_refused (renavigate (JsonCursor v (path c @ [Key k])) q) x"
        and okx: "wf_node (node x)"
        by blast
      have "replayed_or_refused (renavigate c (Key k # q)) x"
      proof (cases "isinstance_dict (node c)")
        case True
        from getattr_child [OF True wf(1) kv] rn show ?thesis by simp
      next
        case False
        from getattr_refused [OF False, of k q] show ?thesis
          unfolding replayed_or_refused_def by blast
      qed
      with px okx show ?thesis by blast
    next
      case 3
      from wf_on_list [OF 3(2)] ok have wf: "wf_elements (elements (node c))" by simp
      from "1.IH"(2) [OF 3(1) 3(2)] wf 3(3) obtain j q where
        j: "0 \<le> j" "j < 0 + int (length (elements (node c)))" and px: "path x = path c @ Idx j # q"
        and rn: "replayed_or_refused (renavigate (JsonCursor (elements (node c) ! nat (j - 0)) (path c @ [Idx j])) q) x"
        and okx: "wf_node (node x)"
        by blast
      have "replayed_or_refused (renavigate c (Idx j # q)) x"
      proof (cases "isinstance_list (node c)")
        case True
        from j have "JsonCursor_getitem c j = Inr (JsonCursor (elements (node c) ! nat j) (path c @ [Idx j]))"
          using getitem_child [OF True, of j] by simp
        with rn show ?thesis by simp
      next
        case False
        from getitem_refused [OF False, of j q] show ?thesis
          unfolding replayed_or_refused_def by blast
      qed
      with px okx show ?thesis by blast
    qed
  qed
next
  case (2 p)
  then show ?case by simp
next
  case (3 p kv rest)
  show ?case
  proof (intro impI ballI)
    fix x
    assume ok: "distinct (map fst (kv # rest)) \<and> wf_items (kv # rest)"
      and "x \<in> set (preorder_items p (kv # rest))"
    then consider "x \<in> set (preorder (JsonCursor (snd kv) (p @ [Key (fst kv)])))"
      | "x \<in> set (preorder_items p rest)"
      by auto
    then show "\<exists>k v q. (k, v) \<in> set (kv # rest) \<and> path x = p @ Key k # q
         \<and> replayed_or_refused (renavigate (JsonCursor v (p @ [Key k])) q) x
         \<and> wf_node (node x)"
    proof cases
      case 1
      from ok have "wf_node (snd kv)" by simp
      with "3.IH"(1) 1 obtain q where
        "path x = (p @ [Key (fst kv)]) @ q"
        "replayed_or_refused (renavigate (JsonCursor (snd kv) (p @ [Key (fst kv)])) q) x"
        "wf_node (node x)"
        by fastforce
      then have "(fst kv, snd kv) \<in> set (kv # rest) \<and> path x = p @ Key (fst kv) # q
         \<and> replayed_or_refused (renavigate (JsonCursor (snd kv) (p @ [Key (fst kv)])) q) x
         \<and> wf_node (node x)"
        by simp
      then show ?thesis by blast
    next
      case 2
      from ok have "distinct (map fst rest) \<and> wf_items rest" by simp
      with "3.IH"(2) 2 obtain k v q where
        "(k, v) \<in> set rest" "path x = p @ Key k # q"
        "replayed_or_refused (renavigate (JsonCursor v (p @ [Key k])) q) x"
        "wf_node (node x)"
        by blast
      then have "(k, v) \<in> set (kv # rest) \<and> path x = p @ Key k # q
         \<and> replayed_or_refused (renavigate (JsonCursor v (p @ [Key k])) q) x
         \<and> wf_node (node x)"
        by simp
      then show ?thesis by blast
    qed
  qed
next
  case (4 p i)
  then show ?case by simp
next
  case (5 p i y rest)
  show ?case
  proof (intro impI ballI)
    fix x
    assume ok: "wf_elements (y # rest)"
      and "x \<in> set (preorder_enumerate p i (y # rest))"
    then consider "x \<in> set (preorder (JsonCursor y (p @ [Idx i])))"
      | "x \<in> set (preorder_enumerate p (i + 1) rest)"
      by auto
    then show "\<exists>j q. i \<le> j \<and> j < i + int (length (y # rest)) \<and> path x = p @ Idx j # q
         \<and> replayed_or_refused (renavigate (JsonCursor ((y # rest) ! nat (j - i)) (p @ [Idx j])) q) x
         \<and> wf_node (node x)"
    proof cases
      case 1
      from ok have "wf_node y" by simp
      with "5.IH"(1) 1 obtain q where
        "path x = (p @ [Idx i]) @ q"
        "replayed_or_refused (renavigate (JsonCursor y (p @ [Idx i])) q) x"
        "wf_node (node x)"
        by fastforce
      then have "i \<le> i \<and> i < i + int (length (y # rest)) \<and> path x = p @ Idx i # q
         \<and> replayed_or_refused (renavigate (JsonCursor ((y # rest) ! nat (i - i)) (p @ [Idx i])) q) x
         \<and> wf_node (node x)"
        by simp
      then show ?thesis by blast
    next
      case 2
      from ok have "wf_elements rest" by simp
      with "5.IH"(2) 2 obtain j q where
        j: "i + 1 \<le> j" "j < i + 1 + int (length rest)" and px: "path x = p @ Idx j # q"
        and rn: "replayed_or_refused (renavigate (JsonCursor (rest ! nat (j - (i + 1))) (p @ [Idx j])) q) x"
        and okx: "wf_node (node x)"
        by blast
      from j have "nat (j - i) = Suc (nat (j - (i + 1)))" by simp
      then have "(y # rest) ! nat (j - i) = rest ! nat (j - (i + 1))" by simp
      with j px rn okx have "i \<le> j \<and> j < i + int (length (y # rest)) \<and> path x = p @ Idx j # q
         \<and> replayed_or_refused (renavigate (JsonCursor ((y # rest) ! nat (j - i)) (p @ [Idx j])) q) x
         \<and> wf_node (node x)"
        by simp
      then show ?thesis by blast
    qed
  qed
qed

lemma reachable_replayed_or_refused:
  assumes "wf_node tree" and "reachable tree c"
  shows "replayed_or_refused (renavigate (JsonCursor_init tree None) (path c)) c \<and> wf_node (node c)"
  using assms(2)
proof (induction rule: reachable.induct)
  case root
  with assms(1) show ?case by (simp add: JsonCursor_init_def replayed_or_refused_def)
next
  case (by_key c name c')
  from by_key.hyps(2) obtain child where dict: "isinstance_dict (node c)"
    and look: "map_of (items (node c)) name = Some child"
    and c': "c' = JsonCursor child (path c @ [Key name])"
    by (auto simp: JsonCursor_getattr_def split: if_splits option.splits)
  from look have mem: "(name, child) \<in> set (items (node c))" by (rule map_of_SomeD)
  from dict have od: "on_dict c" by (cases "node c") (simp_all add: on_dict_def)
  from wf_on_dict [OF od] by_key.IH mem have "wf_node child"
    by (auto intro: wf_items_member)
  moreover have "replayed_or_refused (renavigate (JsonCursor_init tree None) (path c')) c'"
    using by_key.IH by_key.hyps(2) c'
    by (auto simp: renavigate_append replayed_or_refused_def)
  ultimately show ?case using c' by simp
next
  case (by_index c index c')
  from by_index.hyps(2) have lst: "isinstance_list (node c)"
    and range: "0 \<le> index" "index < int (length (elements (node c)))"
    and c': "c' = JsonCursor (elements (node c) ! nat index) (path c @ [Idx index])"
    by (auto simp: JsonCursor_getitem_def split: if_splits)
  from lst have ol: "on_list c" by (cases "node c") (simp_all add: on_list_def Let_def)
  from range have n: "nat index < length (elements (node c))" by simp
  from wf_on_list [OF ol] by_index.IH n have "wf_node (elements (node c) ! nat index)"
    by (auto intro: wf_elements_nth)
  moreover have "replayed_or_refused (renavigate (JsonCursor_init tree None) (path c')) c'"
    using by_index.IH by_index.hyps(2) c'
    by (auto simp: renavigate_append replayed_or_refused_def)
  ultimately show ?case using c' by simp
next
  case (by_search c predicate c')
  from by_search.hyps(2) have "c' \<in> set (preorder c)" by (rule search_result_in_subtree)
  with subtree_replay_any(1) [of c] by_search.IH obtain q where
    "path c' = path c @ q" "replayed_or_refused (renavigate c q) c'" "wf_node (node c')"
    by blast
  with by_search.IH show ?case
    by (auto simp: renavigate_append replayed_or_refused_def)
qed

text \<open>
  Claim C1, amended. Replaying the path of a cursor from the root cursor, keys by
  \<open>childByKey\<close> and indices by \<open>childByIndex\<close>, yields a cursor with the same node and the
  same path for every cursor reachable by navigation steps alone, and, in a tree all of
  whose mappings are \<^verbatim>\<open>dict\<close>s and all of whose sequences are \<^verbatim>\<open>list\<close>s, for every cursor
  reachable by navigation steps and searches. In any tree the replay for a reachable
  cursor yields that cursor or is refused with \<open>TypeMismatch\<close> or \<open>NotASequence\<close>; it never
  yields another cursor.
\<close>

theorem path_round_trip:
  "(navigable tree c \<longrightarrow> renavigate (JsonCursor_init tree None) (path c) = Inr c)
   \<and> (wf_node tree \<and> plain_json tree \<and> reachable tree c \<longrightarrow>
        renavigate (JsonCursor_init tree None) (path c) = Inr c)
   \<and> (wf_node tree \<and> reachable tree c \<longrightarrow>
        renavigate (JsonCursor_init tree None) (path c) = Inr c
        \<or> renavigate (JsonCursor_init tree None) (path c) = Inl TypeMismatch
        \<or> renavigate (JsonCursor_init tree None) (path c) = Inl NotASequence)"
  using navigable_replay [of tree c] reachable_invariant [of tree c]
    reachable_replayed_or_refused [of tree c]
  by (auto simp: replayed_or_refused_def)

lemma search_is_y_example:
  "JsonCursor_search (JsonCursor_init example_root None) is_y
     = Inr (Some (JsonCursor (PStr ''y'') [Key ''user'', Key ''tags'', Idx 1]))"
proof -
  have "JsonCursor_init example_root None = JsonCursor example_root []"
    by (simp add: JsonCursor_init_def)
  then have "JsonCursor_search (JsonCursor_init example_root None) is_y
      = first_match is_y (preorder (JsonCursor example_root []))"
    by (simp add: JsonCursor_search_def search_first_match(1))
  also have "\<dots> = Inr (Some (JsonCursor (PStr ''y'') [Key ''user'', Key ''tags'', Idx 1]))"
    unfolding preorder_example
    by (simp add: is_y_def on_data_def on_dict_def on_list_def Let_def JsonCursor_value_def example_root_def)
  finally show ?thesis .
qed

theorem path_round_trip_witness:
  "reachable example_root (JsonCursor (PStr ''y'') [Key ''user'', Key ''tags'', Idx 1])
   \<and> renavigate (JsonCursor_init example_root None) [Key ''user'', Key ''tags'', Idx 1]
       = Inr (JsonCursor (PStr ''y'') [Key ''user'', Key ''tags'', Idx 1])
   \<and> navigable example_root (JsonCursor (PStr ''Alice'') [Key ''user'', Key ''name''])
   \<and> renavigate (JsonCursor_init example_root None) [Key ''user'', Key ''name'']
       = Inr (JsonCursor (PStr ''Alice'') [Key ''user'', Key ''name''])"
proof -
  have wf: "wf_node example_root" by (simp add: example_root_def)
  have pl: "plain_json example_root" by (simp add: example_root_def)
  have "reachable example_root (JsonCursor_init example_root None)" by (rule reachable.root)
  from reachable.by_search [OF this search_is_y_example]
  have r: "reachable example_root (JsonCursor (PStr ''y'') [Key ''user'', Key ''tags'', Idx 1])" .
  have n0: "navigable example_root (JsonCursor_init example_root None)" by (rule navigable.root)
  have "JsonCursor_getattr (JsonCursor_init example_root None) ''user''
      = Inr (JsonCursor (PDict [(''name'', PStr ''Alice''), (''tags'', PList [PStr ''x'', PStr ''y''])])
               [Key ''user''])"
    by (simp add: JsonCursor_getattr_def JsonCursor_init_def example_root_def)
  from navigable.by_key [OF n0 this]
  have n1: "navigable example_root
      (JsonCursor (PDict [(''name'', PStr ''Alice''), (''tags'', PList [PStr ''x'', PStr ''y''])])
         [Key ''user''])" .
  have "JsonCursor_getattr
      (JsonCursor (PDict [(''name'', PStr ''Alice''), (''tags'', PList [PStr ''x'', PStr ''y''])])
         [Key ''user'']) ''name''
      = Inr (JsonCursor (PStr ''Alice'') [Key ''user'', Key ''name''])"
    by (simp add: JsonCursor_getattr_def)
  from navigable.by_key [OF n1 this]
  have n2: "navigable example_root (JsonCursor (PStr ''Alice'') [Key ''user'', Key ''name''])" .
  from path_round_trip [of example_root "JsonCursor (PStr ''y'') [Key ''user'', Key ''tags'', Idx 1]"]
    path_round_trip [of example_root "JsonCursor (PStr ''Alice'') [Key ''user'', Key ''name'']"]
    wf pl r n2
  show ?thesis by simp
qed

section \<open>What the path accessor returns\<close>

lemma getitem_object_refines:
  "object_path obj < length h \<Longrightarrow>
     JsonCursor_getitem (cursor_of h obj) i
       = (case getitem_object h obj i of Inl e \<Rightarrow> Inl e | Inr (h', obj') \<Rightarrow> Inr (cursor_of h' obj'))"
  by (simp add: JsonCursor_getitem_def getitem_object_def cursor_of_def nth_append)

lemma init_object_refines:
  "cursor_of (fst (init_object h n None)) (snd (init_object h n None)) = JsonCursor_init n None"
  by (simp add: init_object_def cursor_of_def JsonCursor_init_def)

text \<open>
  Claim C8, as stated, says that the list \<open>path()\<close> returns is a copy. \<^verbatim>\<open>get_path\<close> returns
  \<^verbatim>\<open>self.path\<close>: after the caller appends to the returned list, the cursor's own path has
  the new segment, and the cursor \<^verbatim>\<open>cursor[0]\<close> derived afterwards has it too.
\<close>

theorem get_path_returns_alias:
  "cursor_of (fst (init_object [] (PList [PInt 7]) None)) (snd (init_object [] (PList [PInt 7]) None))
     = JsonCursor (PList [PInt 7]) []
   \<and> cursor_of (list_append (fst (init_object [] (PList [PInt 7]) None))
                  (get_path (snd (init_object [] (PList [PInt 7]) None))) (Key ''oops''))
        (snd (init_object [] (PList [PInt 7]) None))
     = JsonCursor (PList [PInt 7]) [Key ''oops'']
   \<and> getitem_object (list_append (fst (init_object [] (PList [PInt 7]) None))
                  (get_path (snd (init_object [] (PList [PInt 7]) None))) (Key ''oops''))
        (snd (init_object [] (PList [PInt 7]) None)) 0
     = Inr ([[Key ''oops''], [Key ''oops'', Idx 0]], CursorObject (PInt 7) 1)"
  by (simp add: init_object_def cursor_of_def list_append_def get_path_def getitem_object_def)

text \<open>
  Claim C8, amended. \<open>path()\<close> returns the cursor's path list itself: the list returned
  equals the cursor's path, and a change made to the returned list afterwards is a change
  of the cursor's path (its node stays as it is).
\<close>

theorem get_path_shares_list:
  "h ! get_path obj = path (cursor_of h obj)
   \<and> (get_path obj < length h \<longrightarrow>
        path (cursor_of (list_append h (get_path obj) x) obj) = path (cursor_of h obj) @ [x]
        \<and> node (cursor_of (list_append h (get_path obj) x) obj) = node (cursor_of h obj))"
  by (simp add: get_path_def cursor_of_def list_append_def)

theorem get_path_shares_list_witness:
  "[[Key ''user'']] ! get_path (CursorObject (PInt 7) 0) = [Key ''user'']
   \<and> path (cursor_of (list_append [[Key ''user'']] (get_path (CursorObject (PInt 7) 0)) (Idx 3))
        (CursorObject (PInt 7) 0)) = [Key ''user'', Idx 3]"
  using get_path_shares_list [of "[[Key ''user'']]" "CursorObject (PInt 7) 0" "Idx 3"]
  by (simp add: get_path_def cursor_of_def)

end
